theory Spec2Isabelle
  imports Complex_Main "HOL-Library.Word" "HOL-Library.Multiset"
begin

section \<open>C values\<close>

text \<open>
  The program is \<^verbatim>\<open>crypto_random.c\<close>, in its Linux build (\<^verbatim>\<open>_WIN32\<close> undefined,
  \<^verbatim>\<open>__linux__\<close> defined, LP64: \<^verbatim>\<open>size_t\<close> and \<^verbatim>\<open>long\<close> have 64 bits, \<^verbatim>\<open>int\<close> has 32).

  A \<^verbatim>\<open>const char *\<close> that points to a string is modelled by the characters that follow the
  pointer, with the terminating NUL left implicit at the end of the list: \<open>c_str\<close> gives the
  string the C library sees there (everything before the first NUL).
\<close>

type_synonym byte = "8 word"

definition NUL :: char where
  "NUL = CHR 0x00"

definition c_str :: "string \<Rightarrow> string" where
  "c_str s = takeWhile (\<lambda>c. c \<noteq> NUL) s"

definition strlen :: "string \<Rightarrow> nat" where
  "strlen s = length (c_str s)"

text \<open>\<^verbatim>\<open>strcmp(a, b) == 0\<close>\<close>

definition strcmp_eq :: "string \<Rightarrow> string \<Rightarrow> bool" where
  "strcmp_eq a b = (c_str a = c_str b)"

text \<open>How a run of a C function ends: it has not returned within the events the environment
  supplies, it has undefined behaviour, or it returns a value.\<close>

datatype 'a run = Blocked | Undefined | Ret 'a

text \<open>A block obtained from \<^verbatim>\<open>malloc\<close>: one cell per byte, \<open>None\<close> until the cell is written.\<close>

type_synonym 'a block = "'a option list"

definition SIZE_MAX :: nat where
  "SIZE_MAX = 2 ^ 64 - 1"

definition INT_MAX :: int where
  "INT_MAX = 2 ^ 31 - 1"

definition LONG_MAX :: int where
  "LONG_MAX = 2 ^ 63 - 1"

definition LONG_MIN :: int where
  "LONG_MIN = - (2 ^ 63)"

text \<open>Reading a block as a string (\<^verbatim>\<open>printf("%s")\<close>, \<^verbatim>\<open>strlen\<close>): the characters before the
  first NUL; reading a cell that was never written, or past the end of the block, is undefined.\<close>

fun block_str :: "char block \<Rightarrow> string option" where
  "block_str [] = None"
| "block_str (None # cs) = None"
| "block_str (Some c # cs) =
     (if c = NUL then Some [] else map_option ((#) c) (block_str cs))"

section \<open>Character sets\<close>

definition CHARSET_FULL :: string where
  "CHARSET_FULL =
     ''ABCDEFGHIJKLMNOPQRSTUVWXYZabcdefghijklmnopqrstuvwxyz0123456789!@#$%^&*()-_=+[]{}|;:,.<>?''"

definition CHARSET_ALNUM :: string where
  "CHARSET_ALNUM = ''ABCDEFGHIJKLMNOPQRSTUVWXYZabcdefghijklmnopqrstuvwxyz0123456789''"

definition CHARSET_NUM :: string where
  "CHARSET_NUM = ''0123456789''"

section \<open>The process and its environment\<close>

text \<open>A \<^verbatim>\<open>double\<close> is idealised as a real number: rounding is not modelled. \<open>None\<close> stands
  for a value that is no real number (an infinity or a NaN), as division by zero and the
  logarithm of a number that is not positive produce, and for whatever is computed from such
  a value. The numbers the program computes differ from the idealised ones by rounding, so
  only what does not depend on rounding is stated of them below: which operations are carried
  out, on which operands and in which order.\<close>

type_synonym double = "real option"

datatype arg = Str string | Size nat | Long int | Dbl double

text \<open>What is written to the diagnostic stream: the format and arguments of each
  \<^verbatim>\<open>fprintf(stderr, ...)\<close>, and the message of each \<^verbatim>\<open>perror\<close>.\<close>

datatype diag = Fprintf string "arg list" | Perror string

text \<open>The calls of \<^verbatim>\<open>malloc\<close>, \<^verbatim>\<open>free\<close>, \<^verbatim>\<open>getrandom\<close>, \<^verbatim>\<open>open\<close>, \<^verbatim>\<open>read\<close> and
  \<^verbatim>\<open>close\<close> that the process makes, in order.\<close>

datatype os_call = Malloc nat | Free | Getrandom nat | Open_urandom | Read int nat | Close int

record proc =
  stdout :: string
  stderr :: "diag list"
  calls :: "os_call list"

definition proc0 :: proc where
  "proc0 = \<lparr>stdout = [], stderr = [], calls = []\<rparr>"

definition call :: "os_call \<Rightarrow> proc \<Rightarrow> proc" where
  "call c p = p\<lparr>calls := calls p @ [c]\<rparr>"

definition eprint :: "diag \<Rightarrow> proc \<Rightarrow> proc" where
  "eprint d p = p\<lparr>stderr := stderr p @ [d]\<rparr>"

definition print :: "string \<Rightarrow> proc \<Rightarrow> proc" where
  "print s p = p\<lparr>stdout := stdout p @ s\<rparr>"

definition nl :: string where
  "nl = [CHR 0x0A]"

text \<open>What the environment answers. \<open>Getrandom_bytes bs\<close> and \<open>Read_bytes bs\<close>: the kernel has
  the bytes \<open>bs\<close> to give to this call, and gives as many of them as the call asks for.
  \<open>Getrandom_error e\<close> and \<open>Read_error e\<close>: the call returns -1 with \<^verbatim>\<open>errno\<close> \<open>e\<close>.\<close>

datatype getrandom_event = Getrandom_error int | Getrandom_bytes "byte list"

datatype read_event = Read_error int | Read_bytes "byte list"

record os =
  malloc_result :: bool  \<comment> \<open>\<^verbatim>\<open>malloc(length + 1)\<close> returns a block\<close>
  malloc_random_bytes :: bool  \<comment> \<open>\<^verbatim>\<open>malloc(length)\<close> returns a block\<close>
  getrandom_ev :: getrandom_event
  open_ret :: int  \<comment> \<open>what \<^verbatim>\<open>open("/dev/urandom", O_RDONLY)\<close> returns\<close>
  read_evs :: "read_event list"  \<comment> \<open>what the successive \<^verbatim>\<open>read\<close> calls meet\<close>

definition EINTR :: int where
  "EINTR = 4"

text \<open>Storing \<open>xs\<close> in a block from offset \<open>off\<close>; \<open>None\<close> when it does not fit.\<close>

definition write_block :: "'a block \<Rightarrow> nat \<Rightarrow> 'a list \<Rightarrow> 'a block option" where
  "write_block b off xs =
     (if off + length xs \<le> length b
      then Some (take off b @ map Some xs @ drop (off + length xs) b) else None)"

text \<open>\<^verbatim>\<open>(ssize_t)length\<close>\<close>

definition ssize_of_size :: "nat \<Rightarrow> int" where
  "ssize_of_size n =
     (if n mod 2 ^ 64 < 2 ^ 63 then int (n mod 2 ^ 64) else int (n mod 2 ^ 64) - 2 ^ 64)"

text \<open>\<^verbatim>\<open>getrandom(buffer, length, 0)\<close> and \<^verbatim>\<open>read(fd, buffer + off, count)\<close>: the value
  returned and the buffer afterwards.\<close>

fun sys_getrandom :: "getrandom_event \<Rightarrow> byte block \<Rightarrow> nat \<Rightarrow> (int \<times> byte block) run" where
  "sys_getrandom (Getrandom_error e) buffer n = Ret (- 1, buffer)"
| "sys_getrandom (Getrandom_bytes bs) buffer n =
     (case write_block buffer 0 (take n bs) of
        None \<Rightarrow> Undefined
      | Some buffer' \<Rightarrow> Ret (int (length (take n bs)), buffer'))"

section \<open>get\_random\_bytes\<close>

text \<open>The loop of the fallback path, lines 71 to 84: \<open>evs\<close> are the answers the coming
  \<^verbatim>\<open>read\<close> calls meet. The result is the value \<^verbatim>\<open>get_random_bytes\<close> returns, with the
  buffer and the process afterwards.\<close>

fun read_loop ::
  "read_event list \<Rightarrow> int \<Rightarrow> nat \<Rightarrow> nat \<Rightarrow> byte block \<Rightarrow> proc \<Rightarrow> (int \<times> byte block \<times> proc) run"
where
  "read_loop [] fd len bytes_read buffer p =
     (if bytes_read < len then Blocked
      else Ret (0, buffer, call (Close fd) p))"
| "read_loop (Read_error e # evs) fd len bytes_read buffer p =
     (if bytes_read < len then
        (let p1 = call (Read fd (len - bytes_read)) p in
         if e = EINTR then read_loop evs fd len bytes_read buffer p1
         else Ret (- 1, buffer,
                eprint (Perror ''Failed to read from /dev/urandom'') (call (Close fd) p1)))
      else Ret (0, buffer, call (Close fd) p))"
| "read_loop (Read_bytes bs # evs) fd len bytes_read buffer p =
     (if bytes_read < len then
        (let p1 = call (Read fd (len - bytes_read)) p;
             got = take (len - bytes_read) bs
         in case write_block buffer bytes_read got of
              None \<Rightarrow> Undefined
            | Some buffer' \<Rightarrow> read_loop evs fd len (bytes_read + length got) buffer' p1)
      else Ret (0, buffer, call (Close fd) p))"

definition get_random_bytes ::
  "os \<Rightarrow> byte block \<Rightarrow> nat \<Rightarrow> proc \<Rightarrow> (int \<times> byte block \<times> proc) run"
where
  "get_random_bytes w buffer len p =
     (case sys_getrandom (getrandom_ev w) buffer len of
        Blocked \<Rightarrow> Blocked
      | Undefined \<Rightarrow> Undefined
      | Ret (result, buffer1) \<Rightarrow>
          (let p1 = call (Getrandom len) p in
           if result = ssize_of_size len then Ret (0, buffer1, p1)
           else
             (let fd = open_ret w; p2 = call Open_urandom p1 in
              if fd < 0 then Ret (- 1, buffer1, eprint (Perror ''Failed to open /dev/urandom'') p2)
              else read_loop (read_evs w) fd len 0 buffer1 p2)))"

section \<open>generate\_random\_string\<close>

text \<open>The loop of lines 116 to 120, from index \<open>i\<close> on. Undefined: reading a cell of
  \<^verbatim>\<open>random_bytes\<close> that was never written or lies outside the block, the remainder of a
  division by a \<^verbatim>\<open>charset_size\<close> of 0, and writing outside \<^verbatim>\<open>result\<close>.\<close>

function fill_loop ::
  "nat \<Rightarrow> nat \<Rightarrow> string \<Rightarrow> nat \<Rightarrow> byte block \<Rightarrow> char block \<Rightarrow> char block run"
where
  "fill_loop i len charset charset_size random_bytes result =
     (if i < len then
        (if i < length random_bytes then
           (case random_bytes ! i of
              None \<Rightarrow> Undefined
            | Some b \<Rightarrow>
                if charset_size = 0 then Undefined
                else if i < length result then
                  fill_loop (i + 1) len charset charset_size random_bytes
                    (result[i := Some (c_str charset ! (unat b mod charset_size))])
                else Undefined)
         else Undefined)
      else Ret result)"
  by pat_completeness auto
termination
  by (relation "measure (\<lambda>(i, len, _). len - i)") auto

declare fill_loop.simps [simp del]

text \<open>The value returned is the pointer: \<open>None\<close> for \<^verbatim>\<open>NULL\<close>, otherwise the block it points
  to. \<^verbatim>\<open>length + 1\<close> is computed in \<^verbatim>\<open>size_t\<close>.\<close>

definition generate_random_string ::
  "os \<Rightarrow> nat \<Rightarrow> string \<Rightarrow> proc \<Rightarrow> (char block option \<times> proc) run"
where
  "generate_random_string w len charset p =
     (let charset_size = strlen charset;
          result_size = (len + 1) mod (SIZE_MAX + 1);
          p1 = call (Malloc result_size) p
      in
      if \<not> malloc_result w then
        Ret (None, eprint (Fprintf (''Memory allocation failed'' @ nl) []) p1)
      else
        (let result = replicate result_size None;
             p2 = call (Malloc len) p1
         in
         if \<not> malloc_random_bytes w then
           Ret (None, call Free (eprint (Fprintf (''Memory allocation failed'' @ nl) []) p2))
         else
           (case get_random_bytes w (replicate len None) len p2 of
              Blocked \<Rightarrow> Blocked
            | Undefined \<Rightarrow> Undefined
            | Ret (status, random_bytes, p3) \<Rightarrow>
                if status \<noteq> 0 then
                  Ret (None,
                    call Free (call Free
                      (eprint (Fprintf (''Failed to generate random bytes'' @ nl) []) p3)))
                else
                  (case fill_loop 0 len charset charset_size random_bytes result of
                     Blocked \<Rightarrow> Blocked
                   | Undefined \<Rightarrow> Undefined
                   | Ret result1 \<Rightarrow>
                       if len < length result1
                       then Ret (Some (result1[len := Some NUL]), call Free p3)
                       else Undefined))))"

section \<open>calculate\_shannon\_entropy\<close>

definition d_of_int :: "int \<Rightarrow> double" where
  "d_of_int i = Some (real_of_int i)"

definition d_of_size :: "nat \<Rightarrow> double" where
  "d_of_size n = Some (real n)"

definition d_div :: "double \<Rightarrow> double \<Rightarrow> double" where
  "d_div a b =
     (case (a, b) of
        (Some x, Some y) \<Rightarrow> if y = 0 then None else Some (x / y)
      | _ \<Rightarrow> None)"

definition d_mul :: "double \<Rightarrow> double \<Rightarrow> double" where
  "d_mul a b = (case (a, b) of (Some x, Some y) \<Rightarrow> Some (x * y) | _ \<Rightarrow> None)"

definition d_sub :: "double \<Rightarrow> double \<Rightarrow> double" where
  "d_sub a b = (case (a, b) of (Some x, Some y) \<Rightarrow> Some (x - y) | _ \<Rightarrow> None)"

text \<open>\<^verbatim>\<open>log\<close> of \<^verbatim>\<open>math.h\<close>: the natural logarithm of a positive number.\<close>

definition d_log :: "double \<Rightarrow> double" where
  "d_log a = (case a of Some x \<Rightarrow> if 0 < x then Some (ln x) else None | None \<Rightarrow> None)"

text \<open>The loop of lines 133 to 135 over the characters of the string. \<^verbatim>\<open>freq\<close> is an array
  of 256 \<^verbatim>\<open>int\<close>; incrementing an entry that holds \<^verbatim>\<open>INT_MAX\<close> is undefined.\<close>

fun count_loop :: "int list \<Rightarrow> string \<Rightarrow> int list run" where
  "count_loop freq [] = Ret freq"
| "count_loop freq (c # cs) =
     (let k = (of_char c :: nat) in
      if freq ! k = INT_MAX then Undefined
      else count_loop (freq[k := freq ! k + 1]) cs)"

text \<open>The body of the loop of lines 139 to 144.\<close>

definition entropy_step :: "int list \<Rightarrow> nat \<Rightarrow> double \<Rightarrow> nat \<Rightarrow> double" where
  "entropy_step freq len entropy i =
     (if freq ! i > 0 then
        (let p = d_div (d_of_int (freq ! i)) (d_of_size len)
         in d_sub entropy (d_mul p (d_div (d_log p) (d_log (Some 2)))))
      else entropy)"

definition calculate_shannon_entropy :: "string \<Rightarrow> double run" where
  "calculate_shannon_entropy str =
     (let len = strlen str in
      case count_loop (replicate 256 0) (c_str str) of
        Blocked \<Rightarrow> Blocked
      | Undefined \<Rightarrow> Undefined
      | Ret freq \<Rightarrow> Ret (foldl (entropy_step freq len) (Some 0) [0..<256]))"

section \<open>main\<close>

text \<open>\<^verbatim>\<open>print_usage\<close> writes with \<^verbatim>\<open>printf\<close>, to the standard output.\<close>

definition print_usage :: "string \<Rightarrow> proc \<Rightarrow> proc" where
  "print_usage program_name p =
     print (nl @ ''Example: '' @ c_str program_name @ '' 32 full'' @ nl)
      (print (''    num    - Numbers only (0-9)'' @ nl)
      (print (''    alnum  - Alphanumeric only (A-Z, a-z, 0-9)'' @ nl)
      (print (''    full   - All printable ASCII including special chars (default)'' @ nl)
      (print (''  mode (optional):'' @ nl)
      (print (''  length: Length of the random string to generate'' @ nl)
      (print (''Usage: '' @ c_str program_name @ '' <length> [mode]'' @ nl) p))))))"

text \<open>\<^verbatim>\<open>strtol(nptr, &endptr, 10)\<close> of the C library, after ISO C 7.22.1.4 in the C locale: white
  space is skipped, then an optional sign and the longest run of decimal digits are read. The
  result is the value, brought into the range of \<^verbatim>\<open>long\<close>, and what \<^verbatim>\<open>endptr\<close> points to
  afterwards; with no digit there is no conversion, the value is 0 and \<^verbatim>\<open>endptr\<close> is
  \<^verbatim>\<open>nptr\<close>.\<close>

definition isspace :: "char \<Rightarrow> bool" where
  "isspace c = (c = CHR 0x20 \<or> (9 \<le> (of_char c :: nat) \<and> (of_char c :: nat) \<le> 13))"

definition isdigit :: "char \<Rightarrow> bool" where
  "isdigit c = (48 \<le> (of_char c :: nat) \<and> (of_char c :: nat) \<le> 57)"

definition decimal :: "string \<Rightarrow> nat" where
  "decimal ds = foldl (\<lambda>acc c. 10 * acc + (of_char c - 48)) 0 ds"

definition strtol :: "string \<Rightarrow> int \<times> string" where
  "strtol nptr =
     (let s1 = dropWhile isspace nptr;
          neg = (case s1 of c # _ \<Rightarrow> c = CHR ''-'' | [] \<Rightarrow> False);
          s2 = (case s1 of c # r \<Rightarrow> if c = CHR ''-'' \<or> c = CHR ''+'' then r else s1 | [] \<Rightarrow> s1);
          ds = takeWhile isdigit s2
      in if ds = [] then (0, nptr)
         else (max LONG_MIN (min LONG_MAX (if neg then - int (decimal ds) else int (decimal ds))),
               dropWhile isdigit s2))"

text \<open>\<^verbatim>\<open>*endptr\<close>\<close>

definition deref :: "string \<Rightarrow> char" where
  "deref s = (case s of [] \<Rightarrow> NUL | c # _ \<Rightarrow> c)"

definition quote :: string where
  "quote = [CHR 0x27]"

text \<open>Lines 174 to 188: the character set and the name of the mode, \<open>None\<close> for a mode that is
  refused.\<close>

definition select_mode :: "string list \<Rightarrow> (string \<times> string) option" where
  "select_mode argv =
     (if length argv \<ge> 3 then
        (if strcmp_eq (argv ! 2) ''alnum'' then Some (CHARSET_ALNUM, ''alphanumeric'')
         else if strcmp_eq (argv ! 2) ''num'' then Some (CHARSET_NUM, ''numeric'')
         else if \<not> strcmp_eq (argv ! 2) ''full'' then None
         else Some (CHARSET_FULL, ''full''))
      else Some (CHARSET_FULL, ''full''))"

text \<open>Line 201, \<^verbatim>\<open>log(strlen(charset)) / log(2.0)\<close>, for a character set of \<open>n\<close>
  characters.\<close>

definition max_entropy :: "nat \<Rightarrow> double" where
  "max_entropy n = d_div (d_log (d_of_size n)) (d_log (Some 2))"

text \<open>Lines 199 to 209, written to the standard error.\<close>

definition entropy_information :: "string \<Rightarrow> string \<Rightarrow> int \<Rightarrow> double \<Rightarrow> proc \<Rightarrow> proc" where
  "entropy_information charset mode_name len entropy p =
     (let max_entropy = max_entropy (strlen charset) in
      eprint (Fprintf (''Efficiency: %.1f%%'' @ nl)
                [Dbl (d_mul (d_div entropy max_entropy) (Some 100))])
     (eprint (Fprintf (''Total entropy: %.2f bits'' @ nl) [Dbl (d_mul entropy (d_of_int len))])
     (eprint (Fprintf (''Maximum possible: %.2f bits/char'' @ nl) [Dbl max_entropy])
     (eprint (Fprintf (''Shannon entropy: %.2f bits/char'' @ nl) [Dbl entropy])
     (eprint (Fprintf (''String length: %ld'' @ nl) [Long len])
     (eprint (Fprintf (''Mode: %s (%zu characters)'' @ nl) [Str mode_name, Size (strlen charset)])
     (eprint (Fprintf (nl @ ''--- Entropy Information ---'' @ nl) []) p)))))))"

text \<open>The two messages of lines 169 and 185.\<close>

definition invalid_length :: diag where
  "invalid_length =
     Fprintf (''Error: Invalid length. Must be a positive integer (max 1000000)'' @ nl) []"

definition invalid_mode :: diag where
  "invalid_mode =
     Fprintf (''Error: Invalid mode. Use '' @ quote @ ''full'' @ quote @ '', '' @ quote
                @ ''alnum'' @ quote @ '', or '' @ quote @ ''num'' @ quote @ nl) []"

text \<open>The result is the exit status with the process at the end. \<^verbatim>\<open>argv\<close> is the list of the
  \<^verbatim>\<open>argc\<close> arguments; with \<^verbatim>\<open>argc\<close> 0, \<^verbatim>\<open>argv[0]\<close> is \<^verbatim>\<open>NULL\<close> and printing it with
  \<^verbatim>\<open>%s\<close> is undefined.\<close>

definition main :: "os \<Rightarrow> string list \<Rightarrow> (int \<times> proc) run" where
  "main w argv =
     (if length argv < 2 then
        (case argv of
           [] \<Rightarrow> Undefined
         | program_name # _ \<Rightarrow> Ret (1, print_usage program_name proc0))
      else
        (case strtol (argv ! 1) of (len, endptr) \<Rightarrow>
           if deref endptr \<noteq> NUL \<or> len \<le> 0 \<or> len > 1000000 then
             Ret (1, eprint invalid_length proc0)
           else
             (case select_mode argv of
                None \<Rightarrow>
                  Ret (1, eprint invalid_mode proc0)
              | Some (charset, mode_name) \<Rightarrow>
                  (case generate_random_string w (nat len) charset proc0 of
                     Blocked \<Rightarrow> Blocked
                   | Undefined \<Rightarrow> Undefined
                   | Ret (None, p1) \<Rightarrow> Ret (1, p1)
                   | Ret (Some random_string, p1) \<Rightarrow>
                       (case block_str random_string of
                          None \<Rightarrow> Undefined
                        | Some s \<Rightarrow>
                            (let p2 = print (s @ nl) p1 in
                             case calculate_shannon_entropy s of
                               Blocked \<Rightarrow> Blocked
                             | Undefined \<Rightarrow> Undefined
                             | Ret entropy \<Rightarrow>
                                 Ret (0, call Free
                                   (entropy_information charset mode_name len entropy p2))))))))"

section \<open>Reference notions and example environments\<close>

text \<open>The bytes that the reads of the fallback path hand over, in order, to a request for
  \<open>n\<close> more bytes: an interrupted read hands over nothing and the request goes on, any other
  error ends it, and a read hands over at most what is still missing.\<close>

fun received :: "read_event list \<Rightarrow> nat \<Rightarrow> byte list" where
  "received [] n = []"
| "received (Read_error e # evs) n = (if 0 < n \<and> e = EINTR then received evs n else [])"
| "received (Read_bytes bs # evs) n =
     (if 0 < n then take n bs @ received evs (n - length (take n bs)) else [])"

text \<open>The length argument passes the test of line 168.\<close>

definition length_accepted :: "string \<Rightarrow> bool" where
  "length_accepted a =
     (case strtol a of (len, endptr) \<Rightarrow> \<not> (deref endptr \<noteq> NUL \<or> len \<le> 0 \<or> len > 1000000))"

text \<open>\<open>os_getrandom\<close>: \<^verbatim>\<open>getrandom\<close> delivers. \<open>os_urandom\<close>: \<^verbatim>\<open>getrandom\<close> fails with
  \<^verbatim>\<open>ENOSYS\<close> and \<^verbatim>\<open>/dev/urandom\<close> answers with a short read, an interruption, an empty read
  and a long read. \<open>os_no_memory\<close>: the second \<^verbatim>\<open>malloc\<close> fails. \<open>os_no_random\<close>: neither
  \<^verbatim>\<open>getrandom\<close> nor \<^verbatim>\<open>/dev/urandom\<close> is there.\<close>

definition os_getrandom :: os where
  "os_getrandom =
     \<lparr>malloc_result = True, malloc_random_bytes = True,
      getrandom_ev = Getrandom_bytes [0, 1, 255, 90, 10, 77, 30, 200], open_ret = 3,
      read_evs = []\<rparr>"

definition os_urandom :: os where
  "os_urandom =
     \<lparr>malloc_result = True, malloc_random_bytes = True,
      getrandom_ev = Getrandom_error 38, open_ret = 3,
      read_evs = [Read_bytes [7], Read_error EINTR, Read_bytes [], Read_bytes [200, 100, 50, 25]]\<rparr>"

definition os_no_memory :: os where
  "os_no_memory =
     \<lparr>malloc_result = True, malloc_random_bytes = False,
      getrandom_ev = Getrandom_bytes [0, 1, 255, 90, 10, 77, 30, 200], open_ret = 3,
      read_evs = []\<rparr>"

definition os_no_random :: os where
  "os_no_random =
     \<lparr>malloc_result = True, malloc_random_bytes = True,
      getrandom_ev = Getrandom_error 38, open_ret = - 1, read_evs = []\<rparr>"

section \<open>Generating the string\<close>

subsection \<open>The process record and the buffers\<close>

lemma stdout_call [simp]: "stdout (call c p) = stdout p"
  by (simp add: call_def)
lemma stdout_eprint [simp]: "stdout (eprint d p) = stdout p"
  by (simp add: eprint_def)
lemma stdout_print [simp]: "stdout (print s p) = stdout p @ s"
  by (simp add: print_def)
lemma calls_call [simp]: "calls (call c p) = calls p @ [c]"
  by (simp add: call_def)
lemma calls_eprint [simp]: "calls (eprint d p) = calls p"
  by (simp add: eprint_def)
lemma calls_print [simp]: "calls (print s p) = calls p"
  by (simp add: print_def)
lemma stderr_call [simp]: "stderr (call c p) = stderr p"
  by (simp add: call_def)
lemma stderr_eprint [simp]: "stderr (eprint d p) = stderr p @ [d]"
  by (simp add: eprint_def)
lemma stderr_print [simp]: "stderr (print s p) = stderr p"
  by (simp add: print_def)

lemma write_block_Some:
  "off + length xs \<le> length b \<Longrightarrow>
   write_block b off xs = Some (take off b @ map Some xs @ drop (off + length xs) b)"
  by (simp add: write_block_def)

lemma write_block_length: "write_block b off xs = Some b' \<Longrightarrow> length b' = length b"
  by (auto simp: write_block_def split: if_splits)

subsection \<open>What get\_random\_bytes returns\<close>

lemma received_0 [simp]: "received evs 0 = []"
  by (cases evs; cases "hd evs") auto

lemma length_received: "length (received evs n) \<le> n"
proof (induction evs n rule: received.induct)
  case (3 bs evs n)
  then show ?case by (auto simp: min_def)
qed auto

lemma read_loop_cases:
  "bytes_read \<le> len \<Longrightarrow> length buffer = len \<Longrightarrow>
   read_loop evs fd len bytes_read buffer p = Blocked
   \<or> (\<exists>b' p'. read_loop evs fd len bytes_read buffer p = Ret (- 1, b', p')
         \<and> length b' = len \<and> stdout p' = stdout p)
   \<or> (\<exists>p'. read_loop evs fd len bytes_read buffer p
           = Ret (0, take bytes_read buffer @ map Some (received evs (len - bytes_read)), p')
         \<and> length (received evs (len - bytes_read)) = len - bytes_read
         \<and> stdout p' = stdout p)"
proof (induction evs fd len bytes_read buffer p rule: read_loop.induct)
  case (1 fd len bytes_read buffer p)
  then show ?case by auto
next
  case (2 e evs fd len bytes_read buffer p)
  then show ?case by (auto simp: Let_def)
next
  case (3 bs evs fd len bytes_read buffer p)
  show ?case
  proof (cases "bytes_read < len")
    case False
    with 3 show ?thesis by auto
  next
    case True
    define got where "got = take (len - bytes_read) bs"
    define buffer' where "buffer' = take bytes_read buffer @ map Some got @ drop (bytes_read + length got) buffer"
    have fits: "bytes_read + length got \<le> length buffer"
      using 3(2,3) by (simp add: got_def)
    then have wb: "write_block buffer bytes_read got = Some buffer'"
      by (simp add: write_block_Some buffer'_def)
    have len': "length buffer' = len" using fits 3(2,3) by (simp add: buffer'_def)
    have le': "bytes_read + length got \<le> len" using fits 3(3) by simp
    have eq: "read_loop (Read_bytes bs # evs) fd len bytes_read buffer p
      = read_loop evs fd len (bytes_read + length got) buffer' (call (Read fd (len - bytes_read)) p)"
      using True wb by (simp add: Let_def got_def)
    have tk: "take (bytes_read + length got) buffer' = take bytes_read buffer @ map Some got"
      using fits by (simp add: buffer'_def)
    have rc: "received (Read_bytes bs # evs) (len - bytes_read)
        = got @ received evs (len - (bytes_read + length got))"
      using True by (simp add: got_def)
    have IH: "read_loop evs fd len (bytes_read + length got) buffer' (call (Read fd (len - bytes_read)) p) = Blocked
   \<or> (\<exists>b' p'. read_loop evs fd len (bytes_read + length got) buffer' (call (Read fd (len - bytes_read)) p) = Ret (- 1, b', p')
         \<and> length b' = len \<and> stdout p' = stdout (call (Read fd (len - bytes_read)) p))
   \<or> (\<exists>p'. read_loop evs fd len (bytes_read + length got) buffer' (call (Read fd (len - bytes_read)) p)
           = Ret (0, take (bytes_read + length got) buffer' @ map Some (received evs (len - (bytes_read + length got))), p')
         \<and> length (received evs (len - (bytes_read + length got))) = len - (bytes_read + length got)
         \<and> stdout p' = stdout (call (Read fd (len - bytes_read)) p))"
      using "3.IH" True wb le' len' got_def by blast
    show ?thesis
      using IH unfolding eq tk rc using got_def le' by auto
  qed
qed


lemma read_loop_length:
  "read_loop evs fd len bytes_read buffer p = Ret (st, b', p') \<Longrightarrow> length b' = length buffer"
proof (induction evs fd len bytes_read buffer p rule: read_loop.induct)
  case (3 bs evs fd len bytes_read buffer p)
  then show ?case
    by (auto simp: Let_def split: if_splits option.splits dest: write_block_length)
qed (auto simp: Let_def split: if_splits)

lemma get_random_bytes_length:
  assumes a: "get_random_bytes w buffer len p = Ret (st, b', p')"
  shows "length b' = length buffer"
proof (cases "getrandom_ev w")
  case (Getrandom_error e)
  with a show ?thesis
    by (auto simp: get_random_bytes_def Let_def split: if_splits dest: read_loop_length)
next
  case (Getrandom_bytes bs)
  with a obtain b1 where b1: "write_block buffer 0 (take len bs) = Some b1"
    by (auto simp: get_random_bytes_def split: option.splits)
  then have "length b1 = length buffer" by (rule write_block_length)
  with a b1 Getrandom_bytes show ?thesis
    by (auto simp: get_random_bytes_def Let_def split: if_splits dest: read_loop_length)
qed

lemma ssize_of_size_small: "n < 2 ^ 63 \<Longrightarrow> ssize_of_size n = int n"
  by (simp add: ssize_of_size_def)

lemma get_random_bytes_cases:
  assumes "length buffer = len" and "len < 2 ^ 63"
  shows "get_random_bytes w buffer len p = Blocked
   \<or> (\<exists>b' p'. get_random_bytes w buffer len p = Ret (- 1, b', p') \<and> stdout p' = stdout p)
   \<or> (\<exists>bs p'. get_random_bytes w buffer len p = Ret (0, map Some bs, p')
         \<and> length bs = len \<and> stdout p' = stdout p)"
proof (cases "getrandom_ev w")
  case (Getrandom_error e)
  have "read_loop (read_evs w) (open_ret w) len 0 buffer (call Open_urandom (call (Getrandom len) p)) = Blocked
   \<or> (\<exists>b' p'. read_loop (read_evs w) (open_ret w) len 0 buffer (call Open_urandom (call (Getrandom len) p)) = Ret (- 1, b', p')
         \<and> length b' = len \<and> stdout p' = stdout (call Open_urandom (call (Getrandom len) p)))
   \<or> (\<exists>p'. read_loop (read_evs w) (open_ret w) len 0 buffer (call Open_urandom (call (Getrandom len) p))
           = Ret (0, take 0 buffer @ map Some (received (read_evs w) (len - 0)), p')
         \<and> length (received (read_evs w) (len - 0)) = len - 0
         \<and> stdout p' = stdout (call Open_urandom (call (Getrandom len) p)))"
    using assms by (intro read_loop_cases) auto
  then show ?thesis
    using Getrandom_error assms
    by (auto simp: get_random_bytes_def Let_def ssize_of_size_small)
next
  case (Getrandom_bytes bs)
  define got where "got = take len bs"
  define buffer1 where "buffer1 = map Some got @ drop (length got) buffer"
  have wb: "write_block buffer 0 got = Some buffer1"
    using assms by (simp add: write_block_def got_def buffer1_def)
  have len1: "length buffer1 = len" using assms by (simp add: buffer1_def got_def)
  show ?thesis
  proof (cases "length got = len")
    case True
    then have "buffer1 = map Some got" using assms by (simp add: buffer1_def)
    then show ?thesis
      using Getrandom_bytes wb True assms
      by (auto simp: get_random_bytes_def Let_def ssize_of_size_small got_def)
  next
    case False
    have "read_loop (read_evs w) (open_ret w) len 0 buffer1 (call Open_urandom (call (Getrandom len) p)) = Blocked
     \<or> (\<exists>b' p'. read_loop (read_evs w) (open_ret w) len 0 buffer1 (call Open_urandom (call (Getrandom len) p)) = Ret (- 1, b', p')
           \<and> length b' = len \<and> stdout p' = stdout (call Open_urandom (call (Getrandom len) p)))
     \<or> (\<exists>p'. read_loop (read_evs w) (open_ret w) len 0 buffer1 (call Open_urandom (call (Getrandom len) p))
             = Ret (0, take 0 buffer1 @ map Some (received (read_evs w) (len - 0)), p')
           \<and> length (received (read_evs w) (len - 0)) = len - 0
           \<and> stdout p' = stdout (call Open_urandom (call (Getrandom len) p)))"
      using len1 by (intro read_loop_cases) auto
    then show ?thesis
      using Getrandom_bytes wb False assms
      by (auto simp: get_random_bytes_def Let_def ssize_of_size_small got_def)
  qed
qed

lemma read_loop_stdout:
  "read_loop evs fd len bytes_read buffer p = Ret (st, b', p') \<Longrightarrow> stdout p' = stdout p"
  by (induction evs fd len bytes_read buffer p rule: read_loop.induct)
     (auto simp: Let_def split: if_splits option.splits)

lemma get_random_bytes_stdout:
  "get_random_bytes w buffer len p = Ret (st, b', p') \<Longrightarrow> stdout p' = stdout p"
  by (cases "getrandom_ev w")
     (auto simp: get_random_bytes_def Let_def split: if_splits option.splits
           dest: read_loop_stdout)

subsection \<open>What generate\_random\_string returns\<close>

lemma fill_loop_Ret:
  "fill_loop i len cs n rb res = Ret res' \<Longrightarrow> i \<le> len \<Longrightarrow>
   res' = take i res @ map (\<lambda>j. Some (c_str cs ! (unat (the (rb ! j)) mod n))) [i..<len]
            @ drop len res
   \<and> (\<forall>j. i \<le> j \<and> j < len \<longrightarrow> rb ! j \<noteq> None \<and> j < length rb \<and> j < length res)
   \<and> (i < len \<longrightarrow> n \<noteq> 0)"
proof (induction i len cs n rb res rule: fill_loop.induct)
  case (1 i len cs n rb res)
  show ?case
  proof (cases "i < len")
    case False
    with 1(2,3) have "i = len" "res' = res" by (simp_all add: fill_loop.simps)
    then show ?thesis by auto
  next
    case True
    from True 1(2) obtain b where b: "i < length rb" "rb ! i = Some b" "n \<noteq> 0" "i < length res"
      and rec: "fill_loop (i + 1) len cs n rb (res[i := Some (c_str cs ! (unat b mod n))]) = Ret res'"
      by (subst (asm) fill_loop.simps) (auto split: if_splits option.splits)
    note IH = "1.IH"[OF True b(1,2) b(3) b(4) rec]
    have up: "[i..<len] = i # [i + 1..<len]" using True by (simp add: upt_conv_Cons)
    have tk: "take (i + 1) (res[i := x]) = take i res @ [x]" for x
      using b(4) by (simp add: take_Suc_conv_app_nth)
    have dr: "drop len (res[i := x]) = drop len res" for x
      using True by simp
    have "\<And>j. i \<le> j \<Longrightarrow> j < len \<Longrightarrow> j = i \<or> i + 1 \<le> j" by auto
    with IH True b show ?thesis
      unfolding up tk dr by (auto simp: )
  qed
qed

lemma fill_loop_total:
  "i \<le> len \<Longrightarrow> len \<le> length rb \<Longrightarrow> len \<le> length res \<Longrightarrow> \<forall>j<len. rb ! j \<noteq> None \<Longrightarrow>
   (i < len \<longrightarrow> n \<noteq> 0) \<Longrightarrow> \<exists>res'. fill_loop i len cs n rb res = Ret res'"
proof (induction i len cs n rb res rule: fill_loop.induct)
  case (1 i len cs n rb res)
  show ?case
  proof (cases "i < len")
    case False
    then show ?thesis by (simp add: fill_loop.simps)
  next
    case True
    with 1(3,5) obtain b where b: "rb ! i = Some b" by auto
    have n: "n \<noteq> 0" using True 1(6) by simp
    have "\<exists>res'. fill_loop (i + 1) len cs n rb (res[i := Some (c_str cs ! (unat b mod n))]) = Ret res'"
      using "1.IH"[OF True _ b n] True 1(3,4,5) n by auto
    then show ?thesis
      using True b n 1(3,4) by (subst fill_loop.simps) auto
  qed
qed


lemma block_str_terminated:
  "NUL \<notin> set s \<Longrightarrow> block_str (map Some s @ Some NUL # rest) = Some s"
  by (induction s) auto

lemma c_str_no_NUL: "NUL \<notin> set (c_str s)"
  by (auto simp: c_str_def dest: set_takeWhileD)

lemma generate_random_string_Some:
  assumes "generate_random_string w len C p = Ret (Some result, p')"
  shows "\<exists>bs p3. get_random_bytes w (replicate len None) len
             (call (Malloc len) (call (Malloc ((len + 1) mod (SIZE_MAX + 1))) p))
           = Ret (0, map Some bs, p3)
         \<and> length bs = len
         \<and> result = map (\<lambda>b. Some (c_str C ! (unat b mod strlen C))) bs @ [Some NUL]
         \<and> (0 < len \<longrightarrow> strlen C \<noteq> 0)
         \<and> stdout p' = stdout p"
proof -
  define p2 where "p2 = call (Malloc len) (call (Malloc ((len + 1) mod (SIZE_MAX + 1))) p)"
  define m where "m = (len + 1) mod (SIZE_MAX + 1)"
  from assms obtain rb p3 res1 where
    grb: "get_random_bytes w (replicate len None) len p2 = Ret (0, rb, p3)"
    and fl: "fill_loop 0 len C (strlen C) rb (replicate m None) = Ret res1"
    and lt: "len < length res1"
    and res: "result = res1[len := Some NUL]"
    and p': "p' = call Free p3"
    unfolding generate_random_string_def Let_def p2_def m_def
    by (auto split: if_splits run.splits prod.splits)
  have lrb: "length rb = len"
    using get_random_bytes_length[OF grb] by simp
  note F = fill_loop_Ret[OF fl, simplified]
  have all: "\<forall>j<len. rb ! j \<noteq> None" using F by auto
  define bs where "bs = map the rb"
  have rb: "rb = map Some bs"
    using all lrb by (auto simp: bs_def list_eq_iff_nth_eq)
  have lbs: "length bs = len" using lrb by (simp add: bs_def)
  have res1: "res1 = map (\<lambda>j. Some (c_str C ! (unat (the (rb ! j)) mod strlen C))) [0..<len]
            @ drop len (replicate m None)"
    using F by simp
  have m: "m = len + 1"
  proof -
    have "length res1 = len + (m - len)" using res1 by simp
    with lt have "len < m" by simp
    moreover have "m \<le> len + 1" by (simp add: m_def)
    ultimately show ?thesis by simp
  qed
  have mp: "map (\<lambda>j. Some (c_str C ! (unat (the (rb ! j)) mod strlen C))) [0..<len]
      = map (\<lambda>b. Some (c_str C ! (unat b mod strlen C))) bs"
    using lbs by (auto simp: rb list_eq_iff_nth_eq)
  have dr: "drop len (replicate (len + 1) (None :: char option)) = [None]"
    unfolding drop_replicate by simp
  have "result = map (\<lambda>b. Some (c_str C ! (unat b mod strlen C))) bs @ [Some NUL]"
    unfolding res res1 m mp dr using lbs by (simp add: list_update_append)
  moreover have "stdout p' = stdout p"
    using get_random_bytes_stdout[OF grb] by (simp add: p' p2_def)
  ultimately show ?thesis
    using grb rb lbs F unfolding p2_def by auto
qed

lemma c_str_CHARSET_FULL: "c_str CHARSET_FULL = CHARSET_FULL"
  by (simp add: c_str_def CHARSET_FULL_def NUL_def)
lemma c_str_CHARSET_ALNUM: "c_str CHARSET_ALNUM = CHARSET_ALNUM"
  by (simp add: c_str_def CHARSET_ALNUM_def NUL_def)
lemma c_str_CHARSET_NUM: "c_str CHARSET_NUM = CHARSET_NUM"
  by (simp add: c_str_def CHARSET_NUM_def NUL_def)

lemma fill_loop_written:
  assumes "length bs = len" and "len \<le> length res" and "0 < len \<longrightarrow> n \<noteq> 0"
  shows "fill_loop 0 len cs n (map Some bs) res
       = Ret (map (\<lambda>b. Some (c_str cs ! (unat b mod n))) bs @ drop len res)"
proof -
  have "\<exists>res'. fill_loop 0 len cs n (map Some bs) res = Ret res'"
    using assms by (intro fill_loop_total) auto
  then obtain res' where r: "fill_loop 0 len cs n (map Some bs) res = Ret res'" ..
  have "map (\<lambda>j. Some (c_str cs ! (unat (the (map Some bs ! j)) mod n))) [0..<len]
      = map (\<lambda>b. Some (c_str cs ! (unat b mod n))) bs"
    using assms(1) by (auto simp: list_eq_iff_nth_eq)
  with fill_loop_Ret[OF r] show ?thesis by (simp add: r)
qed

lemma generate_random_string_returns:
  assumes "malloc_result w" and "malloc_random_bytes w"
    and "get_random_bytes w (replicate len None) len (call (Malloc len) (call (Malloc (len + 1)) p))
           = Ret (0, map Some bs, p3)"
    and "len < SIZE_MAX" and "0 < len \<longrightarrow> strlen C \<noteq> 0"
  shows "generate_random_string w len C p
       = Ret (Some (map (\<lambda>b. Some (c_str C ! (unat b mod strlen C))) bs @ [Some NUL]),
              call Free p3)"
proof -
  have m: "(len + 1) mod (SIZE_MAX + 1) = len + 1" using assms(4) by simp
  have lbs: "length bs = len"
    using get_random_bytes_length[OF assms(3)] by simp
  have dr: "drop len (replicate (len + 1) (None :: char option)) = [None]"
    unfolding drop_replicate by simp
  have fl: "fill_loop 0 len C (strlen C) (map Some bs) (replicate (len + 1) None)
     = Ret (map (\<lambda>b. Some (c_str C ! (unat b mod strlen C))) bs @ [None])"
    using fill_loop_written[OF lbs _ assms(5), of "replicate (len + 1) None" C] dr by simp
  have up: "(map (\<lambda>b. Some (c_str C ! (unat b mod strlen C))) bs @ [None])[len := Some NUL]
      = map (\<lambda>b. Some (c_str C ! (unat b mod strlen C))) bs @ [Some NUL]"
    using lbs by (simp add: list_update_append)
  show ?thesis
    unfolding generate_random_string_def Let_def m assms(3) fl
    using assms(1,2) lbs by (simp add: fl up del: One_nat_def)
qed

lemma generate_random_string_no_memory:
  "\<not> (malloc_result w \<and> malloc_random_bytes w) \<Longrightarrow>
   \<exists>p'. generate_random_string w len C p = Ret (None, p') \<and> stdout p' = stdout p"
  by (auto simp: generate_random_string_def Let_def)

lemma generate_random_string_no_random:
  "malloc_result w \<Longrightarrow> malloc_random_bytes w \<Longrightarrow>
   get_random_bytes w (replicate len None) len
     (call (Malloc len) (call (Malloc ((len + 1) mod (SIZE_MAX + 1))) p)) = Ret (st, rb, p3) \<Longrightarrow>
   st \<noteq> 0 \<Longrightarrow>
   \<exists>p'. generate_random_string w len C p = Ret (None, p') \<and> stdout p' = stdout p"
  by (auto simp: generate_random_string_def Let_def dest: get_random_bytes_stdout)

text \<open>For the lengths that \<^verbatim>\<open>main\<close> lets through, and longer ones, there is no undefined
  behaviour, given a character set that is not empty.\<close>

lemma generate_random_string_cases:
  assumes "len < 2 ^ 63" and "0 < len \<longrightarrow> strlen C \<noteq> 0"
  shows "generate_random_string w len C p = Blocked
    \<or> (\<exists>p'. generate_random_string w len C p = Ret (None, p') \<and> stdout p' = stdout p)
    \<or> (\<exists>(bs :: byte list) p'. generate_random_string w len C p
           = Ret (Some (map (\<lambda>b. Some (c_str C ! (unat b mod strlen C))) bs @ [Some NUL]), p')
          \<and> length bs = len \<and> stdout p' = stdout p)"
proof (cases "malloc_result w \<and> malloc_random_bytes w")
  case False
  then show ?thesis using generate_random_string_no_memory by blast
next
  case True
  have s: "len < SIZE_MAX" using assms(1) by (simp add: SIZE_MAX_def)
  then have m: "(len + 1) mod (SIZE_MAX + 1) = len + 1" by simp
  define p2 where "p2 = call (Malloc len) (call (Malloc (len + 1)) p)"
  have "get_random_bytes w (replicate len None) len p2 = Blocked
   \<or> (\<exists>b' p'. get_random_bytes w (replicate len None) len p2 = Ret (- 1, b', p') \<and> stdout p' = stdout p2)
   \<or> (\<exists>bs p'. get_random_bytes w (replicate len None) len p2 = Ret (0, map Some bs, p')
         \<and> length bs = len \<and> stdout p' = stdout p2)"
    using assms(1) by (intro get_random_bytes_cases) auto
  then consider
      (blocked) "get_random_bytes w (replicate len None) len p2 = Blocked"
    | (failed) b' p' where "get_random_bytes w (replicate len None) len p2 = Ret (- 1, b', p')"
    | (ok) bs p' where "get_random_bytes w (replicate len None) len p2 = Ret (0, map Some bs, p')"
        "length bs = len" "stdout p' = stdout p2"
    by blast
  then show ?thesis
  proof cases
    case blocked
    then have "generate_random_string w len C p = Blocked"
      using True unfolding generate_random_string_def Let_def m p2_def by simp
    then show ?thesis by simp
  next
    case failed
    then show ?thesis
      using generate_random_string_no_random[of w len p "- 1" b' p' C] True
      unfolding m p2_def by simp
  next
    case ok
    have "generate_random_string w len C p
       = Ret (Some (map (\<lambda>b. Some (c_str C ! (unat b mod strlen C))) bs @ [Some NUL]), call Free p')"
      using True ok(1) s assms(2) unfolding p2_def
      by (intro generate_random_string_returns) auto
    moreover have "stdout (call Free p') = stdout p" using ok(3) by (simp add: p2_def)
    ultimately show ?thesis using ok(2) by blast
  qed
qed

lemma get_random_bytes_getrandom:
  assumes "getrandom_ev w = Getrandom_bytes bs" and "len \<le> length bs" and "len < 2 ^ 63"
    and "length buffer = len"
  shows "get_random_bytes w buffer len p = Ret (0, map Some (take len bs), call (Getrandom len) p)"
proof -
  have "write_block buffer 0 (take len bs) = Some (map Some (take len bs))"
    using assms by (simp add: write_block_def)
  then show ?thesis
    using assms by (simp add: get_random_bytes_def ssize_of_size_small)
qed

lemma get_random_bytes_fallback:
  assumes "getrandom_ev w = Getrandom_error e" and "len < 2 ^ 63"
  shows "get_random_bytes w buffer len p =
    (if open_ret w < 0
     then Ret (- 1, buffer, eprint (Perror ''Failed to open /dev/urandom'')
            (call Open_urandom (call (Getrandom len) p)))
     else read_loop (read_evs w) (open_ret w) len 0 buffer
            (call Open_urandom (call (Getrandom len) p)))"
  using assms by (simp add: get_random_bytes_def ssize_of_size_small Let_def)

lemma SIZE_MAX_gt: "n < 2 ^ 63 \<Longrightarrow> n < SIZE_MAX"
  by (simp add: SIZE_MAX_def)

lemma strlen_CHARSET_NUM: "strlen CHARSET_NUM = 10"
  by (simp add: strlen_def c_str_CHARSET_NUM) (simp add: CHARSET_NUM_def)
lemma strlen_CHARSET_ALNUM: "strlen CHARSET_ALNUM = 62"
  by (simp add: strlen_def c_str_CHARSET_ALNUM) (simp add: CHARSET_ALNUM_def)
lemma strlen_CHARSET_FULL: "strlen CHARSET_FULL = 88"
  by (simp add: strlen_def c_str_CHARSET_FULL) (simp add: CHARSET_FULL_def)

lemma generate_os_getrandom_3:
  "generate_random_string os_getrandom 3 CHARSET_NUM proc0 =
   Ret (Some [Some CHR ''0'', Some CHR ''1'', Some CHR ''5'', Some NUL],
        call Free (call (Getrandom 3) (call (Malloc 3) (call (Malloc (3 + 1)) proc0))))"
proof -
  have g: "get_random_bytes os_getrandom (replicate 3 None) 3 (call (Malloc 3) (call (Malloc (3 + 1)) proc0))
    = Ret (0, map Some (take 3 [0, 1, 255, 90, 10, 77, 30, 200]),
        call (Getrandom 3) (call (Malloc 3) (call (Malloc (3 + 1)) proc0)))"
    by (rule get_random_bytes_getrandom) (simp_all add: os_getrandom_def)
  have "generate_random_string os_getrandom 3 CHARSET_NUM proc0 =
    Ret (Some (map (\<lambda>b. Some (c_str CHARSET_NUM ! (unat b mod strlen CHARSET_NUM)))
          (take 3 [0, 1, 255, 90, 10, 77, 30, 200 :: byte]) @ [Some NUL]),
        call Free (call (Getrandom 3) (call (Malloc 3) (call (Malloc (3 + 1)) proc0))))"
    by (rule generate_random_string_returns[OF _ _ g])
       (simp_all add: os_getrandom_def SIZE_MAX_def strlen_CHARSET_NUM)
  then show ?thesis
    by (simp add: strlen_CHARSET_NUM c_str_CHARSET_NUM) (simp add: CHARSET_NUM_def)
qed

lemma get_random_bytes_os_urandom_4:
  "get_random_bytes os_urandom (replicate 4 None) 4 (call (Malloc 4) (call (Malloc (4 + 1)) proc0))
    = Ret (0, map Some [7, 200, 100, 50],
        call (Close 3) (call (Read 3 3) (call (Read 3 3) (call (Read 3 3)
          (call (Read 3 4) (call Open_urandom (call (Getrandom 4)
            (call (Malloc 4) (call (Malloc (4 + 1)) proc0)))))))))"
proof -
  have r4: "replicate 4 None = [None, None, None, None :: byte option]"
    by (simp add: numeral_eq_Suc)
  show ?thesis
    unfolding r4
    by (subst get_random_bytes_fallback[of _ 38])
       (simp_all add: os_urandom_def EINTR_def write_block_def)
qed

lemma generate_os_urandom_4:
  "generate_random_string os_urandom 4 CHARSET_ALNUM proc0 =
   Ret (Some [Some CHR ''H'', Some CHR ''O'', Some CHR ''m'', Some CHR ''y'', Some NUL],
        call Free (call (Close 3) (call (Read 3 3) (call (Read 3 3) (call (Read 3 3)
          (call (Read 3 4) (call Open_urandom (call (Getrandom 4)
            (call (Malloc 4) (call (Malloc (4 + 1)) proc0))))))))))"
proof -
  have "generate_random_string os_urandom 4 CHARSET_ALNUM proc0 =
    Ret (Some (map (\<lambda>b. Some (c_str CHARSET_ALNUM ! (unat b mod strlen CHARSET_ALNUM)))
          [7, 200, 100, 50 :: byte] @ [Some NUL]),
        call Free (call (Close 3) (call (Read 3 3) (call (Read 3 3) (call (Read 3 3)
          (call (Read 3 4) (call Open_urandom (call (Getrandom 4)
            (call (Malloc 4) (call (Malloc (4 + 1)) proc0))))))))))"
    by (rule generate_random_string_returns[OF _ _ get_random_bytes_os_urandom_4])
       (simp_all add: os_urandom_def SIZE_MAX_def strlen_CHARSET_ALNUM)
  then show ?thesis
    by (simp add: strlen_CHARSET_ALNUM c_str_CHARSET_ALNUM) (simp add: CHARSET_ALNUM_def)
qed

lemma generate_random_string_block_str:
  assumes "generate_random_string w len C p = Ret (Some result, p')"
  shows "\<exists>bs p3.
     get_random_bytes w (replicate len None) len
       (call (Malloc len) (call (Malloc ((len + 1) mod (SIZE_MAX + 1))) p))
       = Ret (0, map Some bs, p3)
     \<and> length bs = len
     \<and> block_str result = Some (map (\<lambda>b. c_str C ! (unat b mod strlen C)) bs)
     \<and> set (map (\<lambda>b. c_str C ! (unat b mod strlen C)) bs) \<subseteq> set (c_str C)"
proof -
  from generate_random_string_Some[OF assms] obtain bs :: "byte list" and p3 where
    g: "get_random_bytes w (replicate len None) len
       (call (Malloc len) (call (Malloc ((len + 1) mod (SIZE_MAX + 1))) p))
       = Ret (0, map Some bs, p3)"
    and lbs: "length bs = len"
    and res: "result = map (\<lambda>b. Some (c_str C ! (unat b mod strlen C))) bs @ [Some NUL]"
    and n: "0 < len \<longrightarrow> strlen C \<noteq> 0"
    by blast
  define s where "s = map (\<lambda>b. c_str C ! (unat b mod strlen C)) bs"
  have mem: "set s \<subseteq> set (c_str C)"
  proof
    fix c assume "c \<in> set s"
    then obtain b where b: "b \<in> set bs" "c = c_str C ! (unat b mod strlen C)"
      by (auto simp: s_def)
    from b(1) lbs have "0 < len" by (cases bs) auto
    with n have "unat b mod strlen C < length (c_str C)" by (simp add: strlen_def)
    then show "c \<in> set (c_str C)" using b(2) by simp
  qed
  then have "NUL \<notin> set s" using c_str_no_NUL by blast
  then have "block_str (map Some s @ Some NUL # []) = Some s"
    by (rule block_str_terminated)
  moreover have "result = map Some s @ [Some NUL]" by (simp add: res s_def comp_def)
  ultimately have "block_str result = Some s" by simp
  then show ?thesis using g lbs mem unfolding s_def by blast
qed

subsection \<open>Length and members, and the character sets\<close>

text \<open>
  Claim C1. For every length and each of the three character sets \<^verbatim>\<open>CHARSET_FULL\<close>,
  \<^verbatim>\<open>CHARSET_ALNUM\<close> and \<^verbatim>\<open>CHARSET_NUM\<close>: when \<^verbatim>\<open>generate_random_string\<close> succeeds (it
  returns a pointer that is not \<^verbatim>\<open>NULL\<close>), the block it returns holds a string of exactly
  \<open>len\<close> characters, and each of them is a member of the character set.
\<close>

theorem generate_random_string_length_and_members:
  assumes "C = CHARSET_FULL \<or> C = CHARSET_ALNUM \<or> C = CHARSET_NUM"
    and "generate_random_string w len C p = Ret (Some result, p')"
  shows "\<exists>s. block_str result = Some s \<and> length s = len \<and> set s \<subseteq> set C"
proof -
  have "c_str C = C"
    using assms(1) c_str_CHARSET_FULL c_str_CHARSET_ALNUM c_str_CHARSET_NUM by auto
  with generate_random_string_block_str[OF assms(2)] show ?thesis
    by (metis length_map)
qed

theorem generate_random_string_length_and_members_witness:
  "(CHARSET_NUM = CHARSET_FULL \<or> CHARSET_NUM = CHARSET_ALNUM \<or> CHARSET_NUM = CHARSET_NUM)
   \<and> generate_random_string os_getrandom 3 CHARSET_NUM proc0
     = Ret (Some [Some CHR ''0'', Some CHR ''1'', Some CHR ''5'', Some NUL],
         call Free (call (Getrandom 3) (call (Malloc 3) (call (Malloc (3 + 1)) proc0))))
   \<and> (\<exists>s. block_str [Some CHR ''0'', Some CHR ''1'', Some CHR ''5'', Some NUL] = Some s
         \<and> length s = 3 \<and> set s \<subseteq> set CHARSET_NUM)"
  using generate_random_string_length_and_members[OF _ generate_os_getrandom_3]
    generate_os_getrandom_3
  by simp

text \<open>
  Claim C3, as amended. \<^verbatim>\<open>CHARSET_FULL\<close> has 88 characters, \<^verbatim>\<open>CHARSET_ALNUM\<close> has 62 and
  \<^verbatim>\<open>CHARSET_NUM\<close> has 10; each of the three is non-empty and has no character twice.
\<close>

theorem charset_sizes:
  "strlen CHARSET_FULL = 88 \<and> strlen CHARSET_ALNUM = 62 \<and> strlen CHARSET_NUM = 10
   \<and> c_str CHARSET_FULL \<noteq> [] \<and> c_str CHARSET_ALNUM \<noteq> [] \<and> c_str CHARSET_NUM \<noteq> []
   \<and> distinct (c_str CHARSET_FULL) \<and> distinct (c_str CHARSET_ALNUM)
   \<and> distinct (c_str CHARSET_NUM)"
  unfolding strlen_def c_str_CHARSET_FULL c_str_CHARSET_ALNUM c_str_CHARSET_NUM
  by (simp add: CHARSET_FULL_def CHARSET_ALNUM_def CHARSET_NUM_def)

text \<open>The claim as it was stated gives \<^verbatim>\<open>CHARSET_FULL\<close> 90 characters.\<close>

theorem charset_full_size_counterexample:
  "strlen CHARSET_FULL \<noteq> 90"
  unfolding strlen_def c_str_CHARSET_FULL
  by (simp add: CHARSET_FULL_def)

section \<open>The fallback path\<close>

lemma read_loop_complete:
  "bytes_read \<le> len \<Longrightarrow> length buffer = len \<Longrightarrow>
   length (received evs (len - bytes_read)) = len - bytes_read \<Longrightarrow>
   \<exists>p'. read_loop evs fd len bytes_read buffer p
          = Ret (0, take bytes_read buffer @ map Some (received evs (len - bytes_read)), p')"
proof (induction evs fd len bytes_read buffer p rule: read_loop.induct)
  case (1 fd len bytes_read buffer p)
  then show ?case by auto
next
  case (2 e evs fd len bytes_read buffer p)
  then show ?case by (auto simp: Let_def split: if_splits)
next
  case (3 bs evs fd len bytes_read buffer p)
  show ?case
  proof (cases "bytes_read < len")
    case False
    with 3 show ?thesis by auto
  next
    case True
    define got where "got = take (len - bytes_read) bs"
    define buffer' where
      "buffer' = take bytes_read buffer @ map Some got @ drop (bytes_read + length got) buffer"
    have fits: "bytes_read + length got \<le> length buffer"
      using 3(2,3) by (simp add: got_def)
    then have wb: "write_block buffer bytes_read got = Some buffer'"
      by (simp add: write_block_Some buffer'_def)
    have len': "length buffer' = len" using fits 3(2,3) by (simp add: buffer'_def)
    have le': "bytes_read + length got \<le> len" using fits 3(3) by simp
    have eq: "read_loop (Read_bytes bs # evs) fd len bytes_read buffer p
      = read_loop evs fd len (bytes_read + length got) buffer' (call (Read fd (len - bytes_read)) p)"
      using True wb by (simp add: Let_def got_def)
    have tk: "take (bytes_read + length got) buffer' = take bytes_read buffer @ map Some got"
      using fits by (simp add: buffer'_def)
    have rc: "received (Read_bytes bs # evs) (len - bytes_read)
        = got @ received evs (len - (bytes_read + length got))"
      using True by (simp add: got_def)
    have lr: "length (received evs (len - (bytes_read + length got))) = len - (bytes_read + length got)"
      using 3(4) le' unfolding rc by simp
    have "\<exists>p'. read_loop evs fd len (bytes_read + length got) buffer' (call (Read fd (len - bytes_read)) p)
          = Ret (0, take (bytes_read + length got) buffer'
                 @ map Some (received evs (len - (bytes_read + length got))), p')"
      using "3.IH" True wb le' len' lr got_def by blast
    then show ?thesis
      unfolding eq tk rc by simp
  qed
qed

lemma read_loop_status:
  "read_loop evs fd len bytes_read buffer p = Ret (st, b', p') \<Longrightarrow> st = 0 \<or> st = - 1"
  by (induction evs fd len bytes_read buffer p rule: read_loop.induct)
     (auto simp: Let_def split: if_splits option.splits)

text \<open>
  Claim C4. On the fallback path of \<^verbatim>\<open>get_random_bytes\<close> (\<^verbatim>\<open>getrandom\<close> has not delivered
  and \<^verbatim>\<open>/dev/urandom\<close> is open), with a buffer of \<open>len\<close> bytes and for every \<open>len\<close>:
  the call is the loop of reads; while bytes are missing, a read that fails with \<^verbatim>\<open>EINTR\<close>
  is followed by the next read with nothing changed, a read that fails with another error
  makes the call return -1, and a read that brings fewer bytes than are missing is followed by
  the next read, with its bytes stored behind those already there; the call returns 0 exactly
  when the reads hand over \<open>len\<close> bytes, and then the buffer holds just these bytes in order.
\<close>

theorem get_random_bytes_fallback_loop:
  assumes "length buffer = len"
  shows
    "(getrandom_ev w = Getrandom_error e0 \<and> len < 2 ^ 63 \<and> 0 \<le> open_ret w \<longrightarrow>
        get_random_bytes w buffer len p
          = read_loop (read_evs w) (open_ret w) len 0 buffer
              (call Open_urandom (call (Getrandom len) p)))
     \<and> (bytes_read < len \<longrightarrow>
          read_loop (Read_error EINTR # evs) fd len bytes_read buffer p
            = read_loop evs fd len bytes_read buffer (call (Read fd (len - bytes_read)) p))
     \<and> (bytes_read < len \<and> e \<noteq> EINTR \<longrightarrow>
          (\<exists>p'. read_loop (Read_error e # evs) fd len bytes_read buffer p = Ret (- 1, buffer, p')))
     \<and> (length bs < len - bytes_read \<longrightarrow>
          read_loop (Read_bytes bs # evs) fd len bytes_read buffer p
            = read_loop evs fd len (bytes_read + length bs)
                (take bytes_read buffer @ map Some bs @ drop (bytes_read + length bs) buffer)
                (call (Read fd (len - bytes_read)) p))
     \<and> ((\<exists>buffer' p'. read_loop evs0 fd len 0 buffer p = Ret (0, buffer', p'))
          \<longleftrightarrow> length (received evs0 len) = len)
     \<and> (\<forall>buffer' p'. read_loop evs0 fd len 0 buffer p = Ret (0, buffer', p') \<longrightarrow>
          buffer' = map Some (received evs0 len))"
proof (intro conjI impI allI)
  assume "getrandom_ev w = Getrandom_error e0 \<and> len < 2 ^ 63 \<and> 0 \<le> open_ret w"
  then show "get_random_bytes w buffer len p
      = read_loop (read_evs w) (open_ret w) len 0 buffer
          (call Open_urandom (call (Getrandom len) p))"
    using get_random_bytes_fallback[of w e0 len buffer p] by simp
next
  assume "bytes_read < len"
  then show "read_loop (Read_error EINTR # evs) fd len bytes_read buffer p
      = read_loop evs fd len bytes_read buffer (call (Read fd (len - bytes_read)) p)"
    by simp
next
  assume "bytes_read < len \<and> e \<noteq> EINTR"
  then show "\<exists>p'. read_loop (Read_error e # evs) fd len bytes_read buffer p = Ret (- 1, buffer, p')"
    by simp
next
  assume a: "length bs < len - bytes_read"
  then have "write_block buffer bytes_read bs
      = Some (take bytes_read buffer @ map Some bs @ drop (bytes_read + length bs) buffer)"
    using assms by (intro write_block_Some) simp
  moreover have "bytes_read < len" "take (len - bytes_read) bs = bs"
    using a by simp_all
  ultimately show "read_loop (Read_bytes bs # evs) fd len bytes_read buffer p
      = read_loop evs fd len (bytes_read + length bs)
          (take bytes_read buffer @ map Some bs @ drop (bytes_read + length bs) buffer)
          (call (Read fd (len - bytes_read)) p)"
    by (simp add: Let_def)
next
  have c: "read_loop evs0 fd len 0 buffer p = Blocked
   \<or> (\<exists>b' p'. read_loop evs0 fd len 0 buffer p = Ret (- 1, b', p')
         \<and> length b' = len \<and> stdout p' = stdout p)
   \<or> (\<exists>p'. read_loop evs0 fd len 0 buffer p
           = Ret (0, take 0 buffer @ map Some (received evs0 (len - 0)), p')
         \<and> length (received evs0 (len - 0)) = len - 0
         \<and> stdout p' = stdout p)"
    using assms by (intro read_loop_cases) simp_all
  have d: "length (received evs0 len) = len \<Longrightarrow>
    \<exists>p'. read_loop evs0 fd len 0 buffer p = Ret (0, map Some (received evs0 len), p')"
    using read_loop_complete[of 0 len buffer evs0 fd p] assms by simp
  show "(\<exists>buffer' p'. read_loop evs0 fd len 0 buffer p = Ret (0, buffer', p'))
      \<longleftrightarrow> length (received evs0 len) = len"
    using c d by auto
  fix buffer' p'
  assume "read_loop evs0 fd len 0 buffer p = Ret (0, buffer', p')"
  with c show "buffer' = map Some (received evs0 len)" by auto
qed

theorem get_random_bytes_fallback_loop_witness:
  "length (replicate 4 (None :: byte option)) = 4
   \<and> getrandom_ev os_urandom = Getrandom_error 38 \<and> (4 :: nat) < 2 ^ 63 \<and> 0 \<le> open_ret os_urandom
   \<and> get_random_bytes os_urandom (replicate 4 None) 4 proc0
       = read_loop (read_evs os_urandom) (open_ret os_urandom) 4 0 (replicate 4 None)
           (call Open_urandom (call (Getrandom 4) proc0))
   \<and> read_loop [Read_error EINTR, Read_bytes [], Read_bytes [200, 100, 50, 25]]
         3 4 1 (replicate 4 None) proc0
       = read_loop [Read_bytes [], Read_bytes [200, 100, 50, 25]]
           3 4 1 (replicate 4 None) (call (Read 3 (4 - 1)) proc0)
   \<and> (\<exists>p'. read_loop [Read_error 5, Read_bytes [], Read_bytes [200, 100, 50, 25]]
               3 4 1 (replicate 4 None) proc0
          = Ret (- 1, replicate 4 None, p'))
   \<and> read_loop [Read_bytes [7, 200], Read_bytes [], Read_bytes [200, 100, 50, 25]]
         3 4 1 (replicate 4 None) proc0
       = read_loop [Read_bytes [], Read_bytes [200, 100, 50, 25]]
           3 4 (1 + 2) [None, Some 7, Some 200, None] (call (Read 3 (4 - 1)) proc0)
   \<and> (\<exists>buffer' p'.
         read_loop [Read_bytes [7], Read_error EINTR, Read_bytes [], Read_bytes [200, 100, 50, 25]]
           3 4 0 (replicate 4 None) proc0 = Ret (0, buffer', p'))
   \<and> received [Read_bytes [7], Read_error EINTR, Read_bytes [], Read_bytes [200, 100, 50, 25]] 4
       = [7, 200, 100, 50]"
proof -
  have r4: "replicate 4 None = [None, None, None, None :: byte option]"
    by (simp add: numeral_eq_Suc)
  have rc: "received [Read_bytes [7], Read_error EINTR, Read_bytes [], Read_bytes [200, 100, 50, 25]] 4
       = [7, 200, 100, 50]"
    by (simp add: EINTR_def)
  have e: "(5 :: int) \<noteq> EINTR"
    by (simp add: EINTR_def)
  have o: "getrandom_ev os_urandom = Getrandom_error 38" "0 \<le> open_ret os_urandom"
    by (simp_all add: os_urandom_def)
  show ?thesis
    using get_random_bytes_fallback_loop[where buffer = "replicate 4 None" and len = 4
        and w = os_urandom and ?e0.0 = 38 and p = proc0 and bytes_read = 1 and fd = 3
        and evs = "[Read_bytes [], Read_bytes [200, 100, 50, 25]]" and e = 5 and bs = "[7, 200]"
        and ?evs0.0 = "[Read_bytes [7], Read_error EINTR, Read_bytes [], Read_bytes [200, 100, 50, 25]]"]
      rc e o
    by (simp add: r4)
qed

subsection \<open>From the bytes to the string\<close>

lemma get_random_bytes_received:
  assumes "getrandom_ev w = Getrandom_error e" and "len < 2 ^ 63" and "0 \<le> open_ret w"
    and "length buffer = len" and "length (received (read_evs w) len) = len"
  shows "\<exists>p'. get_random_bytes w buffer len p
           = Ret (0, map Some (received (read_evs w) len), p')"
proof -
  have "\<exists>p'. read_loop (read_evs w) (open_ret w) len 0 buffer
            (call Open_urandom (call (Getrandom len) p))
          = Ret (0, take 0 buffer @ map Some (received (read_evs w) (len - 0)), p')"
    using assms(4,5) by (intro read_loop_complete) simp_all
  then show ?thesis
    using get_random_bytes_fallback[OF assms(1,2), of buffer p] assms(3) by simp
qed

lemma generate_random_string_from_bytes:
  assumes "malloc_result w" and "malloc_random_bytes w"
    and "len < SIZE_MAX" and "0 < len \<longrightarrow> strlen C \<noteq> 0"
    and "get_random_bytes w (replicate len None) len (call (Malloc len) (call (Malloc (len + 1)) p))
           = Ret (0, map Some bs, p3)"
  shows "\<exists>s. generate_random_string w len C p = Ret (Some (map Some s @ [Some NUL]), call Free p3)
     \<and> block_str (map Some s @ [Some NUL]) = Some s \<and> length s = len
     \<and> (\<forall>i<len. s ! i = c_str C ! (unat (bs ! i) mod strlen C))"
proof -
  define s where "s = map (\<lambda>b. c_str C ! (unat b mod strlen C)) bs"
  have lbs: "length bs = len"
    using get_random_bytes_length[OF assms(5)] by simp
  have g: "generate_random_string w len C p = Ret (Some (map Some s @ [Some NUL]), call Free p3)"
    using generate_random_string_returns[OF assms(1,2,5,3,4)] by (simp add: s_def comp_def)
  from generate_random_string_block_str[OF g] obtain bs' :: "byte list" where
    b: "block_str (map Some s @ [Some NUL]) = Some (map (\<lambda>b. c_str C ! (unat b mod strlen C)) bs')"
       "length bs' = len"
    by blast
  have "block_str (map Some s @ [Some NUL]) = Some s"
  proof -
    have "NUL \<notin> set (map (\<lambda>b. c_str C ! (unat b mod strlen C)) bs)"
    proof
      assume "NUL \<in> set (map (\<lambda>b. c_str C ! (unat b mod strlen C)) bs)"
      then obtain c where c: "c \<in> set bs" "NUL = c_str C ! (unat c mod strlen C)" by auto
      then have "0 < len" using lbs by (cases bs) auto
      with assms(4) have "unat c mod strlen C < length (c_str C)" by (simp add: strlen_def)
      then have "NUL \<in> set (c_str C)" unfolding c(2) by (rule nth_mem)
      then show False using c_str_no_NUL by blast
    qed
    then show ?thesis unfolding s_def by (rule block_str_terminated)
  qed
  moreover have "length s = len" by (simp add: s_def lbs)
  moreover have "\<forall>i<len. s ! i = c_str C ! (unat (bs ! i) mod strlen C)"
    using lbs by (simp add: s_def)
  ultimately show ?thesis using g by blast
qed

text \<open>
  Claim C2. For every sequence \<open>bs\<close> of bytes that \<^verbatim>\<open>get_random_bytes\<close> leaves in the buffer
  when it returns 0, and every character set (not empty, unless the length is 0):
  \<^verbatim>\<open>generate_random_string\<close>, its two allocations done, returns the string that has at each
  position \<open>i < len\<close> the character of the character set at index \<open>bs ! i mod strlen charset\<close>,
  the first byte giving the first character and so on in the order of the buffer. This holds
  in particular for the bytes \<^verbatim>\<open>getrandom\<close> delivers and for those the reads of
  \<^verbatim>\<open>/dev/urandom\<close> hand over. Conversely, whenever \<^verbatim>\<open>generate_random_string\<close> returns a
  string, \<^verbatim>\<open>get_random_bytes\<close> has returned 0 and the string is this mapping of the bytes in
  the buffer.
\<close>

theorem generate_random_string_maps_bytes:
  "(malloc_result w \<and> malloc_random_bytes w \<and> len < SIZE_MAX \<and> (0 < len \<longrightarrow> strlen C \<noteq> 0)
      \<and> get_random_bytes w (replicate len None) len
           (call (Malloc len) (call (Malloc (len + 1)) p)) = Ret (0, map Some bs, p3)
      \<longrightarrow> (\<exists>s. generate_random_string w len C p
                = Ret (Some (map Some s @ [Some NUL]), call Free p3)
             \<and> block_str (map Some s @ [Some NUL]) = Some s \<and> length s = len
             \<and> (\<forall>i<len. s ! i = c_str C ! (unat (bs ! i) mod strlen C))))
   \<and> (malloc_result w \<and> malloc_random_bytes w \<and> len < 2 ^ 63 \<and> (0 < len \<longrightarrow> strlen C \<noteq> 0)
      \<and> getrandom_ev w = Getrandom_bytes bs0 \<and> len \<le> length bs0
      \<longrightarrow> (\<exists>s p'. generate_random_string w len C p = Ret (Some (map Some s @ [Some NUL]), p')
             \<and> block_str (map Some s @ [Some NUL]) = Some s \<and> length s = len
             \<and> (\<forall>i<len. s ! i = c_str C ! (unat (bs0 ! i) mod strlen C))))
   \<and> (malloc_result w \<and> malloc_random_bytes w \<and> len < 2 ^ 63 \<and> (0 < len \<longrightarrow> strlen C \<noteq> 0)
      \<and> getrandom_ev w = Getrandom_error e \<and> 0 \<le> open_ret w
      \<and> length (received (read_evs w) len) = len
      \<longrightarrow> (\<exists>s p'. generate_random_string w len C p = Ret (Some (map Some s @ [Some NUL]), p')
             \<and> block_str (map Some s @ [Some NUL]) = Some s \<and> length s = len
             \<and> (\<forall>i<len. s ! i = c_str C ! (unat (received (read_evs w) len ! i) mod strlen C))))
   \<and> (\<forall>result p'. generate_random_string w len C p = Ret (Some result, p') \<longrightarrow>
        (\<exists>bs p3.
           get_random_bytes w (replicate len None) len
             (call (Malloc len) (call (Malloc ((len + 1) mod (SIZE_MAX + 1))) p))
             = Ret (0, map Some bs, p3)
           \<and> length bs = len
           \<and> (\<exists>s. block_str result = Some s \<and> length s = len
                \<and> (\<forall>i<len. s ! i = c_str C ! (unat (bs ! i) mod strlen C)))))"
proof (intro conjI impI allI)
  assume "malloc_result w \<and> malloc_random_bytes w \<and> len < SIZE_MAX \<and> (0 < len \<longrightarrow> strlen C \<noteq> 0)
      \<and> get_random_bytes w (replicate len None) len
           (call (Malloc len) (call (Malloc (len + 1)) p)) = Ret (0, map Some bs, p3)"
  then show "\<exists>s. generate_random_string w len C p
                = Ret (Some (map Some s @ [Some NUL]), call Free p3)
             \<and> block_str (map Some s @ [Some NUL]) = Some s \<and> length s = len
             \<and> (\<forall>i<len. s ! i = c_str C ! (unat (bs ! i) mod strlen C))"
    by (intro generate_random_string_from_bytes) simp_all
next
  assume a: "malloc_result w \<and> malloc_random_bytes w \<and> len < 2 ^ 63 \<and> (0 < len \<longrightarrow> strlen C \<noteq> 0)
      \<and> getrandom_ev w = Getrandom_bytes bs0 \<and> len \<le> length bs0"
  then have g: "get_random_bytes w (replicate len None) len
         (call (Malloc len) (call (Malloc (len + 1)) p))
      = Ret (0, map Some (take len bs0),
          call (Getrandom len) (call (Malloc len) (call (Malloc (len + 1)) p)))"
    by (intro get_random_bytes_getrandom) simp_all
  have "\<exists>s. generate_random_string w len C p
                = Ret (Some (map Some s @ [Some NUL]),
                    call Free (call (Getrandom len) (call (Malloc len) (call (Malloc (len + 1)) p))))
             \<and> block_str (map Some s @ [Some NUL]) = Some s \<and> length s = len
             \<and> (\<forall>i<len. s ! i = c_str C ! (unat (take len bs0 ! i) mod strlen C))"
    using a by (intro generate_random_string_from_bytes[OF _ _ _ _ g]) (simp_all add: SIZE_MAX_def)
  then show "\<exists>s p'. generate_random_string w len C p = Ret (Some (map Some s @ [Some NUL]), p')
             \<and> block_str (map Some s @ [Some NUL]) = Some s \<and> length s = len
             \<and> (\<forall>i<len. s ! i = c_str C ! (unat (bs0 ! i) mod strlen C))"
    by auto
next
  assume a: "malloc_result w \<and> malloc_random_bytes w \<and> len < 2 ^ 63 \<and> (0 < len \<longrightarrow> strlen C \<noteq> 0)
      \<and> getrandom_ev w = Getrandom_error e \<and> 0 \<le> open_ret w
      \<and> length (received (read_evs w) len) = len"
  then obtain p3 where g: "get_random_bytes w (replicate len None) len
         (call (Malloc len) (call (Malloc (len + 1)) p))
      = Ret (0, map Some (received (read_evs w) len), p3)"
    using get_random_bytes_received[of w e len "replicate len None"
        "call (Malloc len) (call (Malloc (len + 1)) p)"]
    by auto
  have "\<exists>s. generate_random_string w len C p
                = Ret (Some (map Some s @ [Some NUL]), call Free p3)
             \<and> block_str (map Some s @ [Some NUL]) = Some s \<and> length s = len
             \<and> (\<forall>i<len. s ! i = c_str C ! (unat (received (read_evs w) len ! i) mod strlen C))"
    using a by (intro generate_random_string_from_bytes[OF _ _ _ _ g]) (simp_all add: SIZE_MAX_def)
  then show "\<exists>s p'. generate_random_string w len C p = Ret (Some (map Some s @ [Some NUL]), p')
             \<and> block_str (map Some s @ [Some NUL]) = Some s \<and> length s = len
             \<and> (\<forall>i<len. s ! i = c_str C ! (unat (received (read_evs w) len ! i) mod strlen C))"
    by blast
next
  fix result p'
  assume a: "generate_random_string w len C p = Ret (Some result, p')"
  from generate_random_string_block_str[OF a] obtain bs :: "byte list" and p3 where
    g: "get_random_bytes w (replicate len None) len
       (call (Malloc len) (call (Malloc ((len + 1) mod (SIZE_MAX + 1))) p))
       = Ret (0, map Some bs, p3)"
    and lbs: "length bs = len"
    and s: "block_str result = Some (map (\<lambda>b. c_str C ! (unat b mod strlen C)) bs)"
    by blast
  have "\<forall>i<len. map (\<lambda>b. c_str C ! (unat b mod strlen C)) bs ! i
      = c_str C ! (unat (bs ! i) mod strlen C)"
    using lbs by simp
  with g lbs s show "\<exists>bs p3.
           get_random_bytes w (replicate len None) len
             (call (Malloc len) (call (Malloc ((len + 1) mod (SIZE_MAX + 1))) p))
             = Ret (0, map Some bs, p3)
           \<and> length bs = len
           \<and> (\<exists>s. block_str result = Some s \<and> length s = len
                \<and> (\<forall>i<len. s ! i = c_str C ! (unat (bs ! i) mod strlen C)))"
    by (metis length_map)
qed


theorem generate_random_string_maps_bytes_witness:
  "malloc_result os_urandom \<and> malloc_random_bytes os_urandom \<and> (4 :: nat) < SIZE_MAX
   \<and> strlen CHARSET_ALNUM \<noteq> 0
   \<and> get_random_bytes os_urandom (replicate 4 None) 4
       (call (Malloc 4) (call (Malloc (4 + 1)) proc0))
     = Ret (0, map Some [7, 200, 100, 50],
        call (Close 3) (call (Read 3 3) (call (Read 3 3) (call (Read 3 3)
          (call (Read 3 4) (call Open_urandom (call (Getrandom 4)
            (call (Malloc 4) (call (Malloc (4 + 1)) proc0)))))))))
   \<and> generate_random_string os_urandom 4 CHARSET_ALNUM proc0
     = Ret (Some (map Some ''HOmy'' @ [Some NUL]),
        call Free (call (Close 3) (call (Read 3 3) (call (Read 3 3) (call (Read 3 3)
          (call (Read 3 4) (call Open_urandom (call (Getrandom 4)
            (call (Malloc 4) (call (Malloc (4 + 1)) proc0))))))))))
   \<and> block_str (map Some ''HOmy'' @ [Some NUL]) = Some ''HOmy''
   \<and> getrandom_ev os_urandom = Getrandom_error 38 \<and> 0 \<le> open_ret os_urandom
   \<and> received (read_evs os_urandom) 4 = [7, 200, 100, 50]
   \<and> getrandom_ev os_getrandom = Getrandom_bytes [0, 1, 255, 90, 10, 77, 30, 200]
   \<and> (\<exists>p'. generate_random_string os_getrandom 3 CHARSET_NUM proc0
          = Ret (Some (map Some ''015'' @ [Some NUL]), p'))"
proof -
  let ?P = "call (Close 3) (call (Read 3 3) (call (Read 3 3) (call (Read 3 3)
          (call (Read 3 4) (call Open_urandom (call (Getrandom 4)
            (call (Malloc 4) (call (Malloc (4 + 1)) proc0))))))))"
  have four: "(i :: nat) < 4 \<longleftrightarrow> i = 0 \<or> i = 1 \<or> i = 2 \<or> i = 3" for i by auto
  have three: "(i :: nat) < 3 \<longleftrightarrow> i = 0 \<or> i = 1 \<or> i = 2" for i by auto
  have o: "malloc_result os_urandom" "malloc_random_bytes os_urandom"
    "getrandom_ev os_urandom = Getrandom_error 38" "0 \<le> open_ret os_urandom"
    by (simp_all add: os_urandom_def)
  have g: "malloc_result os_getrandom" "malloc_random_bytes os_getrandom"
    "getrandom_ev os_getrandom = Getrandom_bytes [0, 1, 255, 90, 10, 77, 30, 200]"
    by (simp_all add: os_getrandom_def)
  have n: "(4 :: nat) < SIZE_MAX" by (simp add: SIZE_MAX_def)
  have rc: "received (read_evs os_urandom) 4 = [7, 200, 100, 50]"
    by (simp add: os_urandom_def EINTR_def)
  have alnum: "c_str CHARSET_ALNUM ! 7 = CHR ''H''"
    "c_str CHARSET_ALNUM ! 14 = CHR ''O''"
    "c_str CHARSET_ALNUM ! 38 = CHR ''m''"
    "c_str CHARSET_ALNUM ! 50 = CHR ''y''"
    unfolding c_str_CHARSET_ALNUM by (simp_all add: CHARSET_ALNUM_def)
  have num: "c_str CHARSET_NUM ! 0 = CHR ''0''"
    "c_str CHARSET_NUM ! Suc 0 = CHR ''1''"
    "c_str CHARSET_NUM ! 5 = CHR ''5''"
    unfolding c_str_CHARSET_NUM by (simp_all add: CHARSET_NUM_def)
  have "\<exists>s. generate_random_string os_urandom 4 CHARSET_ALNUM proc0
                = Ret (Some (map Some s @ [Some NUL]), call Free ?P)
             \<and> block_str (map Some s @ [Some NUL]) = Some s \<and> length s = 4
             \<and> (\<forall>i<4. s ! i
                  = c_str CHARSET_ALNUM ! (unat ([7, 200, 100, 50 :: byte] ! i) mod strlen CHARSET_ALNUM))"
    by (rule generate_random_string_maps_bytes[where w = os_urandom and len = 4
          and C = CHARSET_ALNUM and p = proc0 and bs = "[7, 200, 100, 50]" and ?p3.0 = ?P,
          THEN conjunct1, THEN mp])
       (use o n get_random_bytes_os_urandom_4 in \<open>simp add: strlen_CHARSET_ALNUM\<close>)
  then obtain s where s: "generate_random_string os_urandom 4 CHARSET_ALNUM proc0
        = Ret (Some (map Some s @ [Some NUL]), call Free ?P)"
      "block_str (map Some s @ [Some NUL]) = Some s" "length s = 4"
      "\<forall>i<4. s ! i = c_str CHARSET_ALNUM ! (unat ([7, 200, 100, 50 :: byte] ! i) mod strlen CHARSET_ALNUM)"
    by blast
  have l4: "s = [s ! 0, s ! 1, s ! 2, s ! 3]"
    using s(3) by (auto simp: list_eq_iff_nth_eq four)
  have e: "s ! 0 = CHR ''H''" "s ! 1 = CHR ''O''" "s ! 2 = CHR ''m''" "s ! 3 = CHR ''y''"
    using s(4)[rule_format, of 0] s(4)[rule_format, of 1] s(4)[rule_format, of 2]
      s(4)[rule_format, of 3] alnum
    by (simp_all add: strlen_CHARSET_ALNUM)
  have "s = ''HOmy''"
    by (subst l4) (simp only: e)
  note s1 = s(1,2)[unfolded this]
  have "\<exists>t p'. generate_random_string os_getrandom 3 CHARSET_NUM proc0
                = Ret (Some (map Some t @ [Some NUL]), p')
             \<and> block_str (map Some t @ [Some NUL]) = Some t \<and> length t = 3
             \<and> (\<forall>i<3. t ! i
                  = c_str CHARSET_NUM
                      ! (unat ([0, 1, 255, 90, 10, 77, 30, 200 :: byte] ! i) mod strlen CHARSET_NUM))"
    by (rule generate_random_string_maps_bytes[where w = os_getrandom and len = 3
          and C = CHARSET_NUM and p = proc0 and ?bs0.0 = "[0, 1, 255, 90, 10, 77, 30, 200]",
          THEN conjunct2, THEN conjunct1, THEN mp])
       (simp add: g strlen_CHARSET_NUM)
  then obtain t p' where t: "generate_random_string os_getrandom 3 CHARSET_NUM proc0
        = Ret (Some (map Some t @ [Some NUL]), p')" "length t = 3"
      "\<forall>i<3. t ! i = c_str CHARSET_NUM ! (unat ([0, 1, 255, 90, 10, 77, 30, 200 :: byte] ! i) mod strlen CHARSET_NUM)"
    by blast
  have l3: "t = [t ! 0, t ! 1, t ! 2]"
    using t(2) by (auto simp: list_eq_iff_nth_eq three)
  have f: "t ! 0 = CHR ''0''" "t ! 1 = CHR ''1''" "t ! 2 = CHR ''5''"
    using t(3)[rule_format, of 0] t(3)[rule_format, of 1] t(3)[rule_format, of 2] num
    by (simp_all add: strlen_CHARSET_NUM)
  have "t = ''015''"
    by (subst l3) (simp only: f)
  note t1 = t(1)[unfolded this]
  have b: "\<exists>p'. generate_random_string os_getrandom 3 CHARSET_NUM proc0
          = Ret (Some (map Some ''015'' @ [Some NUL]), p')"
    using t1 by blast
  have z: "strlen CHARSET_ALNUM \<noteq> 0" by (simp add: strlen_CHARSET_ALNUM)
  from o(1,2) n z get_random_bytes_os_urandom_4 s1 o(3,4) rc g(3) b show ?thesis
    by (intro conjI)
qed

section \<open>The entropy\<close>

subsection \<open>The frequency table and the sum\<close>

lemma count_loop_eq:
  "length freq = 256 \<Longrightarrow> \<forall>k<256. freq ! k \<le> INT_MAX \<Longrightarrow>
   count_loop freq cs =
     (if \<exists>c\<in>set cs. INT_MAX < freq ! of_char c + int (count (mset cs) c) then Undefined
      else Ret (map (\<lambda>k. freq ! k + int (count (mset cs) (char_of k))) [0..<256]))"
proof (induction cs arbitrary: freq)
  case Nil
  then show ?case by (simp add: list_eq_iff_nth_eq)
next
  case (Cons c cs)
  define k :: nat where "k = of_char c"
  have k: "k < 256" by (simp add: k_def)
  show ?case
  proof (cases "freq ! k = INT_MAX")
    case True
    then have "INT_MAX < freq ! of_char c + int (count (mset (c # cs)) c)"
      by (simp add: k_def)
    then show ?thesis using True by (auto simp: k_def Let_def)
  next
    case False
    define freq' where "freq' = freq[k := freq ! k + 1]"
    have l': "length freq' = 256" using Cons.prems by (simp add: freq'_def)
    have b': "\<forall>j<256. freq' ! j \<le> INT_MAX"
      using Cons.prems False k by (auto simp: freq'_def nth_list_update)
    have nth': "freq' ! of_char d + int (count (mset cs) d)
        = freq ! of_char d + int (count (mset (c # cs)) d)" for d
      using Cons.prems(1) k by (auto simp: freq'_def nth_list_update k_def)
    have nth'': "j < 256 \<Longrightarrow> freq' ! j + int (count (mset cs) (char_of j))
        = freq ! j + int (count (mset (c # cs)) (char_of j))" for j
      using nth'[of "char_of j"] by simp
    have ex: "(\<exists>d\<in>set cs. INT_MAX < freq' ! of_char d + int (count (mset cs) d))
        \<longleftrightarrow> (\<exists>d\<in>set (c # cs). INT_MAX < freq ! of_char d + int (count (mset (c # cs)) d))"
    proof -
      have "\<not> INT_MAX < freq ! of_char c + int (count (mset (c # cs)) c)" if "c \<notin> set cs"
      proof -
        have "freq ! k < INT_MAX" using False Cons.prems(2) k by (simp add: order_less_le)
        then show ?thesis using that by (simp add: k_def count_mset_0_iff[THEN iffD2])
      qed
      then show ?thesis unfolding nth' by auto
    qed
    have "count_loop freq (c # cs) = count_loop freq' cs"
      using False by (simp add: k_def freq'_def Let_def)
    also have "\<dots> = (if \<exists>d\<in>set cs. INT_MAX < freq' ! of_char d + int (count (mset cs) d) then Undefined
      else Ret (map (\<lambda>j. freq' ! j + int (count (mset cs) (char_of j))) [0..<256]))"
      using Cons.IH[OF l' b'] .
    also have "map (\<lambda>j. freq' ! j + int (count (mset cs) (char_of j))) [0..<256]
        = map (\<lambda>j. freq ! j + int (count (mset (c # cs)) (char_of j))) [0..<256]"
      using nth'' by (intro map_cong) auto
    finally show ?thesis unfolding ex .
  qed
qed

lemma calculate_shannon_entropy_eq:
  "calculate_shannon_entropy s =
     (if \<exists>c\<in>set (c_str s). INT_MAX < int (count (mset (c_str s)) c) then Undefined
      else Ret (foldl (entropy_step (map (\<lambda>k. int (count (mset (c_str s)) (char_of k))) [0..<256])
                  (length (c_str s))) (Some 0) [0..<256]))"
proof -
  have "count_loop (replicate 256 0) (c_str s) =
     (if \<exists>c\<in>set (c_str s). INT_MAX < replicate 256 0 ! of_char c + int (count (mset (c_str s)) c)
      then Undefined
      else Ret (map (\<lambda>k. replicate 256 0 ! k + int (count (mset (c_str s)) (char_of k))) [0..<256]))"
    by (rule count_loop_eq) (simp_all add: INT_MAX_def)
  moreover have "map (\<lambda>k. replicate 256 0 ! k + int (count (mset (c_str s)) (char_of k))) [0..<256]
      = map (\<lambda>k. int (count (mset (c_str s)) (char_of k))) [0..<256]"
    by (intro map_cong) auto
  moreover have "replicate 256 0 ! of_char c + int (count (mset (c_str s)) c)
      = int (count (mset (c_str s)) c)" for c :: char
    by simp
  ultimately have cl: "count_loop (replicate 256 0) (c_str s) =
     (if \<exists>c\<in>set (c_str s). INT_MAX < int (count (mset (c_str s)) c) then Undefined
      else Ret (map (\<lambda>k. int (count (mset (c_str s)) (char_of k))) [0..<256]))"
    by simp
  show ?thesis
    unfolding calculate_shannon_entropy_def Let_def strlen_def cl by simp
qed

lemma entropy_step_Some:
  assumes "0 < freq ! k \<longrightarrow> 0 < len"
  shows "entropy_step freq len (Some a) k =
     Some (a - (if 0 < freq ! k
                then real_of_int (freq ! k) / real len
                       * (ln (real_of_int (freq ! k) / real len) / ln 2)
                else 0))"
proof (cases "0 < freq ! k")
  case True
  with assms have "0 < len" by simp
  with True show ?thesis
    by (simp add: entropy_step_def d_div_def d_of_int_def d_of_size_def d_log_def d_mul_def
        d_sub_def Let_def)
next
  case False
  then show ?thesis by (simp add: entropy_step_def)
qed

lemma foldl_entropy_step:
  assumes "\<forall>k<n. 0 < freq ! k \<longrightarrow> 0 < len"
  shows "foldl (entropy_step freq len) (Some a) [0..<n] =
     Some (a - (\<Sum>k = 0..<n. if 0 < freq ! k
                then real_of_int (freq ! k) / real len
                       * (ln (real_of_int (freq ! k) / real len) / ln 2)
                else 0))"
  using assms
proof (induction n)
  case 0
  then show ?case by simp
next
  case (Suc n)
  have IH: "foldl (entropy_step freq len) (Some a) [0..<n] =
     Some (a - (\<Sum>k = 0..<n. if 0 < freq ! k
                then real_of_int (freq ! k) / real len
                       * (ln (real_of_int (freq ! k) / real len) / ln 2)
                else 0))"
    by (rule Suc.IH) (use Suc.prems in \<open>simp add: less_Suc_eq\<close>)
  have st: "0 < freq ! n \<longrightarrow> 0 < len" using Suc.prems lessI by blast
  show ?case
    unfolding upt_Suc_append[OF le0] foldl_append IH
    by (simp add: entropy_step_Some[OF st])
qed

lemma calculate_shannon_entropy_value:
  assumes "\<not> (\<exists>c\<in>set (c_str s). INT_MAX < int (count (mset (c_str s)) c))"
  shows "calculate_shannon_entropy s =
     Ret (Some (- (\<Sum>c\<in>set (c_str s).
        real (count (mset (c_str s)) c) / real (length (c_str s))
          * (ln (real (count (mset (c_str s)) c) / real (length (c_str s))) / ln 2))))"
proof -
  define cs where "cs = c_str s"
  define freq where "freq = map (\<lambda>k. int (count (mset cs) (char_of k))) [0..<256]"
  define g where "g c = (if 0 < count (mset cs) c
      then real (count (mset cs) c) / real (length cs)
             * (ln (real (count (mset cs) c) / real (length cs)) / ln 2)
      else 0)" for c
  have nth: "freq ! k = int (count (mset cs) (char_of k))" if "k < 256" for k
    using that by (simp add: freq_def)
  have pos: "\<forall>k<256. 0 < freq ! k \<longrightarrow> 0 < length cs"
  proof (intro allI impI)
    fix k :: nat assume "k < 256" "0 < freq ! k"
    then have "char_of k \<in> set cs" by (simp add: nth count_greater_zero_iff)
    then show "0 < length cs" by (cases cs) auto
  qed
  have "(\<Sum>k = 0..<256. if 0 < freq ! k
                then real_of_int (freq ! k) / real (length cs)
                       * (ln (real_of_int (freq ! k) / real (length cs)) / ln 2)
                else 0) = (\<Sum>k = 0..<256::nat. g (char_of k))"
    by (intro sum.cong) (auto simp: nth g_def)
  also have "\<dots> = (\<Sum>c\<in>char_of ` {0::nat..<256}. g c)"
    by (simp add: sum.reindex)
  also have "\<dots> = (\<Sum>c\<in>UNIV. g c)"
    by (simp add: UNIV_char_of_nat)
  also have "\<dots> = (\<Sum>c\<in>set cs. g c)"
    by (intro sum.mono_neutral_right) (auto simp: g_def count_eq_zero_iff)
  also have "\<dots> = (\<Sum>c\<in>set cs. real (count (mset cs) c) / real (length cs)
             * (ln (real (count (mset cs) c) / real (length cs)) / ln 2))"
    by (intro sum.cong) (auto simp: g_def count_greater_zero_iff)
  finally have "foldl (entropy_step freq (length cs)) (Some 0) [0..<256] =
     Some (0 - (\<Sum>c\<in>set cs. real (count (mset cs) c) / real (length cs)
             * (ln (real (count (mset cs) c) / real (length cs)) / ln 2)))"
    using foldl_entropy_step[OF pos, of 0] by simp
  then show ?thesis
    using assms unfolding calculate_shannon_entropy_eq cs_def freq_def by simp
qed

lemma no_overflow:
  assumes "strlen s \<le> nat INT_MAX"
  shows "\<not> (\<exists>c\<in>set (c_str s). INT_MAX < int (count (mset (c_str s)) c))"
proof
  assume "\<exists>c\<in>set (c_str s). INT_MAX < int (count (mset (c_str s)) c)"
  then obtain c where "INT_MAX < int (count (mset (c_str s)) c)" by blast
  moreover have "count (mset (c_str s)) c \<le> length (c_str s)"
    using count_le_size[of "mset (c_str s)" c] by simp
  ultimately show False using assms by (simp add: strlen_def INT_MAX_def)
qed

subsection \<open>The empty string and permutations\<close>

lemma read_loop_nothing_to_read:
  "read_loop evs fd 0 0 buffer p = Ret (0, buffer, call (Close fd) p)"
  by (cases evs; cases "hd evs") auto

lemma get_random_bytes_0:
  assumes "(\<exists>bs. getrandom_ev w = Getrandom_bytes bs) \<or> 0 \<le> open_ret w"
  shows "\<exists>p'. get_random_bytes w [] 0 p = Ret (0, [], p')"
proof (cases "getrandom_ev w")
  case (Getrandom_error e)
  with assms have "0 \<le> open_ret w" by simp
  then show ?thesis
    using get_random_bytes_fallback[OF Getrandom_error, of 0 "[]" p]
    by (simp add: read_loop_nothing_to_read)
next
  case (Getrandom_bytes bs)
  then show ?thesis
    using get_random_bytes_getrandom[OF Getrandom_bytes, of 0 "[]" p] by simp
qed

lemma generate_random_string_0:
  assumes "malloc_result w" and "malloc_random_bytes w"
    and "(\<exists>bs. getrandom_ev w = Getrandom_bytes bs) \<or> 0 \<le> open_ret w"
  shows "\<exists>p'. generate_random_string w 0 C p = Ret (Some [Some NUL], p')"
proof -
  from get_random_bytes_0[OF assms(3)] obtain p3 where
    g: "get_random_bytes w (replicate 0 None) 0 (call (Malloc 0) (call (Malloc (0 + 1)) p))
        = Ret (0, map Some [], p3)"
    by auto
  show ?thesis
    using generate_random_string_returns[OF assms(1,2) g, of C]
    by (simp add: SIZE_MAX_def)
qed

text \<open>
  Claim C6. For every character set, \<^verbatim>\<open>generate_random_string(0, charset)\<close> returns the
  empty string: whenever both allocations succeed and the random source is there
  (\<^verbatim>\<open>getrandom\<close> answers, or \<^verbatim>\<open>/dev/urandom\<close> can be opened) it returns a block that holds
  the empty string, and a block it returns never holds anything else. On the empty string
  \<^verbatim>\<open>calculate_shannon_entropy\<close> returns 0: the result is a number, so no division by zero
  has taken place.
\<close>

theorem generate_random_string_0_and_entropy_of_empty:
  "(malloc_result w \<and> malloc_random_bytes w
      \<and> ((\<exists>bs. getrandom_ev w = Getrandom_bytes bs) \<or> 0 \<le> open_ret w) \<longrightarrow>
        (\<exists>p'. generate_random_string w 0 C p = Ret (Some [Some NUL], p')))
   \<and> block_str [Some NUL] = Some []
   \<and> (\<forall>result p'. generate_random_string w 0 C p = Ret (Some result, p') \<longrightarrow>
        block_str result = Some [])
   \<and> calculate_shannon_entropy [] = Ret (Some 0)"
proof (intro conjI impI allI)
  assume "malloc_result w \<and> malloc_random_bytes w
      \<and> ((\<exists>bs. getrandom_ev w = Getrandom_bytes bs) \<or> 0 \<le> open_ret w)"
  then show "\<exists>p'. generate_random_string w 0 C p = Ret (Some [Some NUL], p')"
    using generate_random_string_0 by blast
next
  show "block_str [Some NUL] = Some []" by simp
next
  fix result p'
  assume "generate_random_string w 0 C p = Ret (Some result, p')"
  from generate_random_string_Some[OF this] show "block_str result = Some []" by auto
next
  have "calculate_shannon_entropy [] =
     Ret (Some (- (\<Sum>c\<in>set (c_str []).
        real (count (mset (c_str [])) c) / real (length (c_str []))
          * (ln (real (count (mset (c_str [])) c) / real (length (c_str []))) / ln 2))))"
    by (rule calculate_shannon_entropy_value) (simp add: c_str_def)
  then show "calculate_shannon_entropy [] = Ret (Some 0)"
    by (simp add: c_str_def)
qed

theorem generate_random_string_0_and_entropy_of_empty_witness:
  "malloc_result os_urandom \<and> malloc_random_bytes os_urandom \<and> 0 \<le> open_ret os_urandom
   \<and> (\<exists>p'. generate_random_string os_urandom 0 CHARSET_FULL proc0 = Ret (Some [Some NUL], p'))
   \<and> block_str [Some NUL] = Some []
   \<and> calculate_shannon_entropy [] = Ret (Some 0)"
  using generate_random_string_0_and_entropy_of_empty[of os_urandom CHARSET_FULL proc0]
  by (simp add: os_urandom_def)

text \<open>
  Claim C7. For every string and every permutation of its characters,
  \<^verbatim>\<open>calculate_shannon_entropy\<close> has the same outcome on both: it depends only on how often
  each byte value occurs. (The frequencies are summed in the order of the byte values, whatever
  the order of the string, so this does not depend on how \<^verbatim>\<open>double\<close> arithmetic rounds.)
\<close>

theorem calculate_shannon_entropy_permutation:
  assumes "mset (c_str s) = mset (c_str s')"
  shows "calculate_shannon_entropy s = calculate_shannon_entropy s'"
proof -
  have "set (c_str s) = set (c_str s')" using assms by (rule mset_eq_setD)
  moreover have "length (c_str s) = length (c_str s')" using assms by (rule mset_eq_length)
  ultimately show ?thesis
    unfolding calculate_shannon_entropy_eq assms by simp
qed

theorem calculate_shannon_entropy_permutation_witness:
  "mset (c_str ''aab'') = mset (c_str ''aba'')
   \<and> calculate_shannon_entropy ''aab'' = calculate_shannon_entropy ''aba''"
proof -
  have m: "mset (c_str ''aab'') = mset (c_str ''aba'')"
    by (simp add: c_str_def NUL_def)
  from calculate_shannon_entropy_permutation[OF m] m show ?thesis by simp
qed

section \<open>The command line\<close>

subsection \<open>Reading the length\<close>

lemma isspace_simps:
  "isspace c \<Longrightarrow> c \<noteq> NUL" "isspace c \<Longrightarrow> \<not> isdigit c"
  "isspace c \<Longrightarrow> c \<noteq> CHR ''+''" "isspace c \<Longrightarrow> c \<noteq> CHR ''-''"
  by (auto simp: isspace_def isdigit_def NUL_def)

lemma isdigit_simps:
  "isdigit c \<Longrightarrow> c \<noteq> NUL" "isdigit c \<Longrightarrow> \<not> isspace c"
  "isdigit c \<Longrightarrow> c \<noteq> CHR ''+''" "isdigit c \<Longrightarrow> c \<noteq> CHR ''-''"
  by (auto simp: isspace_def isdigit_def NUL_def)

lemma sign_simps:
  "\<not> isspace (CHR ''+'')" "\<not> isspace (CHR ''-'')" "\<not> isdigit (CHR ''+'')" "\<not> isdigit (CHR ''-'')"
  "\<not> isspace NUL" "\<not> isdigit NUL" "CHR ''+'' \<noteq> NUL" "CHR ''-'' \<noteq> NUL"
  by (simp_all add: isspace_def isdigit_def NUL_def)

lemma strtol_parse:
  assumes ws: "\<forall>c\<in>set ws. isspace c"
    and sg: "sg = [] \<or> sg = ''+'' \<or> sg = ''-''"
    and ds: "ds \<noteq> []" "\<forall>c\<in>set ds. isdigit c"
    and rest: "rest = [] \<or> \<not> isdigit (hd rest)"
  shows "strtol (ws @ sg @ ds @ rest) =
     (max LONG_MIN (min LONG_MAX (if sg = ''-'' then - int (decimal ds) else int (decimal ds))),
      rest)"
proof -
  obtain d ds' where d: "ds = d # ds'" using ds(1) by (cases ds) auto
  have dd: "isdigit d" using ds(2) d by simp
  have nsp: "sg @ ds @ rest \<noteq> []" "\<not> isspace (hd (sg @ ds @ rest))"
    using sg d dd by (auto simp: sign_simps isdigit_simps)
  have s1: "dropWhile isspace (ws @ sg @ ds @ rest) = sg @ ds @ rest"
  proof -
    have "dropWhile isspace (ws @ sg @ ds @ rest) = dropWhile isspace (sg @ ds @ rest)"
      using ws by (simp add: dropWhile_append2)
    also have "\<dots> = sg @ ds @ rest"
      using nsp by (cases "sg @ ds @ rest") auto
    finally show ?thesis .
  qed
  have tk: "takeWhile isdigit (ds @ rest) = ds"
    using ds(2) rest by (cases rest) (auto simp: takeWhile_append2)
  have dr: "dropWhile isdigit (ds @ rest) = rest"
    using ds(2) rest by (cases rest) (auto simp: dropWhile_append2)
  from sg show ?thesis
  proof (elim disjE)
    assume "sg = []"
    then show ?thesis
      unfolding strtol_def s1 using tk dr ds(1) d dd
      by (simp add: Let_def isdigit_simps)
  next
    assume "sg = ''+''"
    then show ?thesis
      unfolding strtol_def s1 using tk dr ds(1)
      by (simp add: Let_def)
  next
    assume "sg = ''-''"
    then show ?thesis
      unfolding strtol_def s1 using tk dr ds(1)
      by (simp add: Let_def)
  qed
qed

lemma strtol_decompose:
  "strtol a = (0, a)
   \<or> (\<exists>ws sg ds rest. a = ws @ sg @ ds @ rest \<and> (\<forall>c\<in>set ws. isspace c)
        \<and> (sg = [] \<or> sg = ''+'' \<or> sg = ''-'') \<and> ds \<noteq> [] \<and> (\<forall>c\<in>set ds. isdigit c)
        \<and> (rest = [] \<or> \<not> isdigit (hd rest)))"
proof -
  define ws where "ws = takeWhile isspace a"
  define s1 where "s1 = dropWhile isspace a"
  define sg where "sg = (case s1 of c # r \<Rightarrow> if c = CHR ''-'' \<or> c = CHR ''+'' then [c] else [] | [] \<Rightarrow> [])"
  define s2 where "s2 = (case s1 of c # r \<Rightarrow> if c = CHR ''-'' \<or> c = CHR ''+'' then r else s1 | [] \<Rightarrow> s1)"
  define ds where "ds = takeWhile isdigit s2"
  define rest where "rest = dropWhile isdigit s2"
  have a: "a = ws @ s1" by (simp add: ws_def s1_def)
  have s1: "s1 = sg @ s2" by (auto simp: sg_def s2_def split: list.splits)
  have s2: "s2 = ds @ rest" by (simp add: ds_def rest_def)
  show ?thesis
  proof (cases "ds = []")
    case True
    then have "strtol a = (0, a)"
      unfolding strtol_def Let_def ds_def s2_def s1_def by simp
    then show ?thesis ..
  next
    case False
    have "\<forall>c\<in>set ws. isspace c" by (auto simp: ws_def dest: set_takeWhileD)
    moreover have "sg = [] \<or> sg = ''+'' \<or> sg = ''-''"
      by (auto simp: sg_def split: list.splits)
    moreover have "\<forall>c\<in>set ds. isdigit c" by (auto simp: ds_def dest: set_takeWhileD)
    moreover have "rest = [] \<or> \<not> isdigit (hd rest)"
      unfolding rest_def using hd_dropWhile[of isdigit s2] by auto
    moreover have "a = ws @ sg @ ds @ rest" using a s1 s2 by simp
    ultimately show ?thesis using False by blast
  qed
qed

subsection \<open>The runs of main\<close>

lemma c_str_literal: "NUL \<notin> set s \<Longrightarrow> c_str s = s"
  by (auto simp: c_str_def takeWhile_eq_all_conv)

lemma strcmp_eq_modes:
  "strcmp_eq a ''alnum'' \<longleftrightarrow> c_str a = ''alnum''"
  "strcmp_eq a ''num'' \<longleftrightarrow> c_str a = ''num''"
  "strcmp_eq a ''full'' \<longleftrightarrow> c_str a = ''full''"
  by (simp_all add: strcmp_eq_def c_str_literal NUL_def)

lemma select_mode_None_iff:
  "select_mode argv = None \<longleftrightarrow>
     3 \<le> length argv \<and> c_str (argv ! 2) \<noteq> ''full'' \<and> c_str (argv ! 2) \<noteq> ''alnum''
       \<and> c_str (argv ! 2) \<noteq> ''num''"
  by (auto simp: select_mode_def strcmp_eq_modes)

lemma select_mode_Some:
  "select_mode argv = Some (charset, mode_name) \<Longrightarrow>
   charset = CHARSET_FULL \<or> charset = CHARSET_ALNUM \<or> charset = CHARSET_NUM"
  by (auto simp: select_mode_def split: if_splits)

lemma stdout_entropy_information [simp]:
  "stdout (entropy_information charset mode_name len entropy p) = stdout p"
  by (simp add: entropy_information_def Let_def)

lemma calls_entropy_information [simp]:
  "calls (entropy_information charset mode_name len entropy p) = calls p"
  by (simp add: entropy_information_def Let_def)

lemma proc0_simps [simp]: "stdout proc0 = []" "stderr proc0 = []" "calls proc0 = []"
  by (simp_all add: proc0_def)

lemma main_invalid_length:
  assumes "2 \<le> length argv" and "strtol (argv ! 1) = (len, endptr)"
    and "deref endptr \<noteq> NUL \<or> len \<le> 0 \<or> 1000000 < len"
  shows "main w argv = Ret (1, eprint invalid_length proc0)"
  using assms by (auto simp: main_def)

lemma main_invalid_mode:
  assumes "2 \<le> length argv" and "strtol (argv ! 1) = (len, endptr)"
    and "deref endptr = NUL" and "0 < len" and "len \<le> 1000000"
    and "select_mode argv = None"
  shows "main w argv = Ret (1, eprint invalid_mode proc0)"
  using assms by (auto simp: main_def)

lemma main_generate:
  assumes "2 \<le> length argv" and "strtol (argv ! 1) = (len, endptr)"
    and "deref endptr = NUL" and "0 < len" and "len \<le> 1000000"
    and "select_mode argv = Some (charset, mode_name)"
  shows "main w argv = Blocked \<and> generate_random_string w (nat len) charset proc0 = Blocked
    \<or> (\<exists>p1. generate_random_string w (nat len) charset proc0 = Ret (None, p1)
          \<and> main w argv = Ret (1, p1) \<and> stdout p1 = [])
    \<or> (\<exists>result p1 s e. generate_random_string w (nat len) charset proc0 = Ret (Some result, p1)
          \<and> block_str result = Some s \<and> length s = nat len \<and> set s \<subseteq> set charset
          \<and> main w argv
              = Ret (0, call Free (entropy_information charset mode_name len e (print (s @ nl) p1)))
          \<and> stdout p1 = [])"
proof -
  have C: "charset = CHARSET_FULL \<or> charset = CHARSET_ALNUM \<or> charset = CHARSET_NUM"
    using assms(6) by (rule select_mode_Some)
  then have n: "strlen charset \<noteq> 0"
    by (auto simp: strlen_CHARSET_FULL strlen_CHARSET_ALNUM strlen_CHARSET_NUM)
  have l: "nat len < 2 ^ 63" using assms(5) by simp
  have m: "main w argv =
    (case generate_random_string w (nat len) charset proc0 of
                     Blocked \<Rightarrow> Blocked
                   | Undefined \<Rightarrow> Undefined
                   | Ret (None, p1) \<Rightarrow> Ret (1, p1)
                   | Ret (Some random_string, p1) \<Rightarrow>
                       (case block_str random_string of
                          None \<Rightarrow> Undefined
                        | Some s \<Rightarrow>
                            (let p2 = print (s @ nl) p1 in
                             case calculate_shannon_entropy s of
                               Blocked \<Rightarrow> Blocked
                             | Undefined \<Rightarrow> Undefined
                             | Ret entropy \<Rightarrow>
                                 Ret (0, call Free
                                   (entropy_information charset mode_name len entropy p2)))))"
    using assms by (auto simp: main_def)
  have "generate_random_string w (nat len) charset proc0 = Blocked
    \<or> (\<exists>p'. generate_random_string w (nat len) charset proc0 = Ret (None, p') \<and> stdout p' = stdout proc0)
    \<or> (\<exists>(bs :: byte list) p'. generate_random_string w (nat len) charset proc0
           = Ret (Some (map (\<lambda>b. Some (c_str charset ! (unat b mod strlen charset))) bs @ [Some NUL]), p')
          \<and> length bs = nat len \<and> stdout p' = stdout proc0)"
    using l n by (intro generate_random_string_cases) auto
  then consider (blocked) "generate_random_string w (nat len) charset proc0 = Blocked"
    | (failed) p1 where "generate_random_string w (nat len) charset proc0 = Ret (None, p1)"
        "stdout p1 = []"
    | (ok) result p1 where "generate_random_string w (nat len) charset proc0 = Ret (Some result, p1)"
        "stdout p1 = []"
    by auto
  then show ?thesis
  proof cases
    case blocked
    then show ?thesis using m by simp
  next
    case failed
    then show ?thesis using m by simp
  next
    case ok
    have "c_str charset = charset"
      using C c_str_CHARSET_FULL c_str_CHARSET_ALNUM c_str_CHARSET_NUM by auto
    with generate_random_string_block_str[OF ok(1)] obtain s where
      s: "block_str result = Some s" "length s = nat len" "set s \<subseteq> set charset"
      by (metis length_map)
    have "strlen s \<le> nat INT_MAX"
    proof -
      have "strlen s \<le> length s" by (simp add: strlen_def c_str_def length_takeWhile_le)
      then show ?thesis using s(2) assms(5) by (simp add: INT_MAX_def)
    qed
    then obtain e where e: "calculate_shannon_entropy s = Ret e"
      using calculate_shannon_entropy_value[OF no_overflow] by blast
    have "main w argv
        = Ret (0, call Free (entropy_information charset mode_name len e (print (s @ nl) p1)))"
      using m ok(1) s(1) e by (simp add: Let_def)
    then show ?thesis using ok s by blast
  qed
qed

lemma deref_NUL_iff: "deref s = NUL \<longleftrightarrow> s = [] \<or> hd s = NUL"
  by (cases s) (auto simp: deref_def)

lemma c_str_split: "\<exists>rest. a = c_str a @ rest \<and> deref rest = NUL"
proof -
  have "a = c_str a @ dropWhile (\<lambda>c. c \<noteq> NUL) a" by (simp add: c_str_def)
  moreover have "deref (dropWhile (\<lambda>c. c \<noteq> NUL) a) = NUL"
    using hd_dropWhile[of "\<lambda>c. c \<noteq> NUL" a] by (auto simp: deref_NUL_iff)
  ultimately show ?thesis by blast
qed

lemma c_str_append:
  assumes "NUL \<notin> set xs" and "deref rest = NUL"
  shows "c_str (xs @ rest) = xs"
proof -
  have "takeWhile (\<lambda>c. c \<noteq> NUL) rest = []"
    using assms(2) by (cases rest) (auto simp: deref_def)
  moreover have "takeWhile (\<lambda>c. c \<noteq> NUL) (xs @ rest) = xs @ takeWhile (\<lambda>c. c \<noteq> NUL) rest"
    using assms(1) by (intro takeWhile_append2) auto
  ultimately show ?thesis
    by (simp add: c_str_def)
qed

lemma strtol_numeral:
  assumes "c_str a = ws @ sg @ ds" and "\<forall>c\<in>set ws. isspace c"
    and "sg = [] \<or> sg = ''+'' \<or> sg = ''-''" and "ds \<noteq> []" and "\<forall>c\<in>set ds. isdigit c"
  shows "\<exists>rest. strtol a =
      (max LONG_MIN (min LONG_MAX (if sg = ''-'' then - int (decimal ds) else int (decimal ds))),
       rest) \<and> deref rest = NUL"
proof -
  from c_str_split[of a] obtain rest where r: "a = c_str a @ rest" "deref rest = NUL" by blast
  have nd: "rest = [] \<or> \<not> isdigit (hd rest)"
    using r(2) by (auto simp: deref_NUL_iff sign_simps)
  have "a = ws @ sg @ ds @ rest" using r(1) assms(1) by simp
  then show ?thesis
    using strtol_parse[OF assms(2,3,4,5) nd] r(2) by auto
qed

lemma length_accepted_iff:
  "(\<exists>len endptr. strtol a = (len, endptr) \<and> deref endptr = NUL \<and> 0 < len \<and> len \<le> 1000000)
   \<longleftrightarrow> (\<exists>ws sg ds. c_str a = ws @ sg @ ds \<and> (\<forall>c\<in>set ws. isspace c)
          \<and> (sg = [] \<or> sg = ''+'') \<and> ds \<noteq> [] \<and> (\<forall>c\<in>set ds. isdigit c)
          \<and> 0 < decimal ds \<and> decimal ds \<le> 1000000)"
    (is "?L \<longleftrightarrow> ?R")
proof
  assume ?L
  then obtain len endptr where
    L: "strtol a = (len, endptr)" "deref endptr = NUL" "0 < len" "len \<le> 1000000"
    by blast
  from strtol_decompose[of a] L have
    "\<exists>ws sg ds rest. a = ws @ sg @ ds @ rest \<and> (\<forall>c\<in>set ws. isspace c)
        \<and> (sg = [] \<or> sg = ''+'' \<or> sg = ''-'') \<and> ds \<noteq> [] \<and> (\<forall>c\<in>set ds. isdigit c)
        \<and> (rest = [] \<or> \<not> isdigit (hd rest))"
    by auto
  then obtain ws sg ds rest where
    d: "a = ws @ sg @ ds @ rest" "\<forall>c\<in>set ws. isspace c" "sg = [] \<or> sg = ''+'' \<or> sg = ''-''"
       "ds \<noteq> []" "\<forall>c\<in>set ds. isdigit c" "rest = [] \<or> \<not> isdigit (hd rest)"
    by blast
  have v: "len = max LONG_MIN (min LONG_MAX (if sg = ''-'' then - int (decimal ds) else int (decimal ds)))"
    and e: "endptr = rest"
    using strtol_parse[OF d(2,3,4,5,6)] L(1) d(1) by simp_all
  have sg: "sg = [] \<or> sg = ''+''"
  proof (rule ccontr)
    assume "\<not> (sg = [] \<or> sg = ''+'')"
    then have "sg = ''-''" using d(3) by blast
    then have "len \<le> 0" using v by (simp add: LONG_MIN_def LONG_MAX_def)
    then show False using L(3) by simp
  qed
  then have v': "len = min LONG_MAX (int (decimal ds))"
    using v by (auto simp: LONG_MIN_def LONG_MAX_def)
  have dec: "0 < decimal ds" "decimal ds \<le> 1000000"
    using v' L(3,4) by (auto simp: LONG_MAX_def min_def split: if_splits)
  have "NUL \<notin> set (ws @ sg @ ds)"
    using d(2,5) sg sign_simps(7) by (auto dest: isspace_simps(1) isdigit_simps(1))
  then have "c_str ((ws @ sg @ ds) @ rest) = ws @ sg @ ds"
    using L(2) e by (intro c_str_append) simp_all
  then have "c_str a = ws @ sg @ ds" using d(1) by simp
  then show ?R using d(2,4,5) sg dec by blast
next
  assume ?R
  then obtain ws sg ds where
    R: "c_str a = ws @ sg @ ds" "\<forall>c\<in>set ws. isspace c" "sg = [] \<or> sg = ''+''" "ds \<noteq> []"
       "\<forall>c\<in>set ds. isdigit c" "0 < decimal ds" "decimal ds \<le> 1000000"
    by blast
  have sg: "sg = [] \<or> sg = ''+'' \<or> sg = ''-''" "sg \<noteq> ''-''" using R(3) by auto
  from strtol_numeral[OF R(1,2) sg(1) R(4,5)] obtain rest where
    "strtol a = (max LONG_MIN (min LONG_MAX (int (decimal ds))), rest)" "deref rest = NUL"
    using sg(2) by auto
  moreover have "max LONG_MIN (min LONG_MAX (int (decimal ds))) = int (decimal ds)"
    using R(7) by (simp add: LONG_MIN_def LONG_MAX_def)
  ultimately show ?L using R(6,7) by auto
qed

lemma length_rejected:
  assumes "c_str a = ws @ sg @ ds" and "\<forall>c\<in>set ws. isspace c"
    and "sg = [] \<or> sg = ''+'' \<or> sg = ''-''" and "ds \<noteq> []" and "\<forall>c\<in>set ds. isdigit c"
    and "n = (if sg = ''-'' then - int (decimal ds) else int (decimal ds))"
    and "n \<le> 0 \<or> 1000000 < n"
  shows "\<exists>len endptr. strtol a = (len, endptr) \<and> (len \<le> 0 \<or> 1000000 < len)"
proof -
  from strtol_numeral[OF assms(1,2,3,4,5)] obtain rest where
    "strtol a = (max LONG_MIN (min LONG_MAX n), rest)"
    using assms(6) by auto
  moreover have "max LONG_MIN (min LONG_MAX n) \<le> 0 \<or> 1000000 < max LONG_MIN (min LONG_MAX n)"
    using assms(7) by (auto simp: LONG_MIN_def LONG_MAX_def)
  ultimately show ?thesis by blast
qed

lemma read_loop_calls:
  "read_loop evs fd len bytes_read buffer p = Ret (st, b', p') \<Longrightarrow> \<exists>cs. calls p' = calls p @ cs"
proof (induction evs fd len bytes_read buffer p rule: read_loop.induct)
  case (1 fd len bytes_read buffer p)
  then show ?case by (auto split: if_splits)
next
  case (2 e evs fd len bytes_read buffer p)
  show ?case
  proof (cases "bytes_read < len \<and> e = EINTR")
    case True
    then have "read_loop evs fd len bytes_read buffer (call (Read fd (len - bytes_read)) p)
        = Ret (st, b', p')"
      using 2(2) by (simp add: Let_def)
    with "2.IH"[OF _ refl] True obtain cs where
      "calls p' = calls (call (Read fd (len - bytes_read)) p) @ cs"
      by blast
    then show ?thesis by simp
  next
    case False
    then show ?thesis using 2(2) by (auto simp: Let_def split: if_splits)
  qed
next
  case (3 bs evs fd len bytes_read buffer p)
  show ?case
  proof (cases "bytes_read < len")
    case True
    with 3(2) obtain buffer' where
      w: "write_block buffer bytes_read (take (len - bytes_read) bs) = Some buffer'"
      and r: "read_loop evs fd len (bytes_read + length (take (len - bytes_read) bs)) buffer'
          (call (Read fd (len - bytes_read)) p) = Ret (st, b', p')"
      by (auto simp: Let_def split: option.splits)
    from "3.IH"[OF True refl refl w r] obtain cs where
      "calls p' = calls (call (Read fd (len - bytes_read)) p) @ cs"
      by blast
    then show ?thesis by simp
  next
    case False
    then show ?thesis using 3(2) by auto
  qed
qed

lemma get_random_bytes_calls:
  "get_random_bytes w buffer len p = Ret (st, b', p') \<Longrightarrow> \<exists>cs. calls p' = calls p @ cs"
  by (cases "getrandom_ev w")
     (auto simp: get_random_bytes_def Let_def split: if_splits option.splits
           dest!: read_loop_calls)

lemma generate_random_string_calls:
  assumes "generate_random_string w len C p = Ret (r, p')"
  shows "\<exists>cs. calls p' = calls p @ Malloc ((len + 1) mod (SIZE_MAX + 1)) # cs"
  using assms
  by (auto simp: generate_random_string_def Let_def
           split: if_splits run.splits prod.splits dest!: get_random_bytes_calls)

lemma invalid_messages_differ: "invalid_mode \<noteq> invalid_length"
  by (simp add: invalid_mode_def invalid_length_def)

lemma eprint_proc0_inject: "eprint d proc0 = eprint d' proc0 \<longleftrightarrow> d = d'"
  by (simp add: eprint_def proc0_def)

lemma strtol_3: "strtol ''3'' = (3, [])"
  by (simp add: strtol_def isspace_def isdigit_def decimal_def LONG_MAX_def LONG_MIN_def)

lemma select_mode_num: "select_mode [prog, a, ''num''] = Some (CHARSET_NUM, ''numeric'')"
  by (simp add: select_mode_def strcmp_eq_modes c_str_literal NUL_def)

lemma main_os_getrandom_3:
  "\<exists>e. main os_getrandom [''randstr'', ''3'', ''num'']
     = Ret (0, call Free (entropy_information CHARSET_NUM ''numeric'' 3 e
          (print (''015'' @ nl)
             (call Free (call (Getrandom 3) (call (Malloc 3) (call (Malloc (3 + 1)) proc0)))))))"
proof -
  have g: "generate_random_string os_getrandom (nat 3) CHARSET_NUM proc0 =
     Ret (Some [Some CHR ''0'', Some CHR ''1'', Some CHR ''5'', Some NUL],
        call Free (call (Getrandom 3) (call (Malloc 3) (call (Malloc (3 + 1)) proc0))))"
    using generate_os_getrandom_3 by simp
  have b: "block_str [Some CHR ''0'', Some CHR ''1'', Some CHR ''5'', Some NUL] = Some ''015''"
    by (simp add: NUL_def)
  show ?thesis
    using main_generate[of "[''randstr'', ''3'', ''num'']" 3 "[]" CHARSET_NUM "''numeric''" os_getrandom]
    unfolding g
    by (auto simp: strtol_3 select_mode_num deref_def NUL_def)
qed

lemma main_os_no_memory_3:
  "main os_no_memory [''randstr'', ''3'', ''num'']
     = Ret (1, call Free (eprint (Fprintf (''Memory allocation failed'' @ nl) [])
          (call (Malloc 3) (call (Malloc 4) proc0))))"
proof -
  have g: "generate_random_string os_no_memory (nat 3) CHARSET_NUM proc0 =
     Ret (None, call Free (eprint (Fprintf (''Memory allocation failed'' @ nl) [])
          (call (Malloc 3) (call (Malloc 4) proc0))))"
    by (simp add: generate_random_string_def os_no_memory_def Let_def SIZE_MAX_def)
  show ?thesis
    using main_generate[of "[''randstr'', ''3'', ''num'']" 3 "[]" CHARSET_NUM "''numeric''" os_no_memory]
    unfolding g
    by (auto simp: strtol_3 select_mode_num deref_def)
qed

lemma length_accepted_strtol:
  "length_accepted a \<longleftrightarrow>
     (\<exists>len endptr. strtol a = (len, endptr) \<and> deref endptr = NUL \<and> 0 < len \<and> len \<le> 1000000)"
  by (cases "strtol a") (auto simp: length_accepted_def)

lemma main_not_accepted:
  assumes "2 \<le> length argv" and "\<not> length_accepted (argv ! 1)"
  shows "main w argv = Ret (1, eprint invalid_length proc0)"
proof -
  obtain len endptr where s: "strtol (argv ! 1) = (len, endptr)" by (cases "strtol (argv ! 1)")
  with assms(2) have "deref endptr \<noteq> NUL \<or> len \<le> 0 \<or> 1000000 < len"
    by (auto simp: length_accepted_def)
  with assms(1) s show ?thesis by (rule main_invalid_length)
qed

lemma main_outcome:
  assumes "2 \<le> length argv"
  shows "\<not> length_accepted (argv ! 1) \<and> main w argv = Ret (1, eprint invalid_length proc0)
    \<or> length_accepted (argv ! 1) \<and> select_mode argv = None
        \<and> main w argv = Ret (1, eprint invalid_mode proc0)
    \<or> (\<exists>charset mode_name. length_accepted (argv ! 1)
          \<and> select_mode argv = Some (charset, mode_name)
          \<and> generate_random_string w (nat (fst (strtol (argv ! 1)))) charset proc0 = Blocked
          \<and> main w argv = Blocked)
    \<or> (\<exists>charset mode_name p1. length_accepted (argv ! 1)
          \<and> select_mode argv = Some (charset, mode_name)
          \<and> generate_random_string w (nat (fst (strtol (argv ! 1)))) charset proc0 = Ret (None, p1)
          \<and> main w argv = Ret (1, p1) \<and> stdout p1 = [])
    \<or> (\<exists>charset mode_name result p1 s p. length_accepted (argv ! 1)
          \<and> select_mode argv = Some (charset, mode_name)
          \<and> generate_random_string w (nat (fst (strtol (argv ! 1)))) charset proc0
              = Ret (Some result, p1)
          \<and> block_str result = Some s \<and> int (length s) = fst (strtol (argv ! 1))
          \<and> set s \<subseteq> set charset
          \<and> main w argv = Ret (0, p) \<and> stdout p = s @ nl)"
proof (cases "length_accepted (argv ! 1)")
  case False
  then show ?thesis using main_not_accepted[OF assms] by simp
next
  case True
  then obtain len endptr where
    s: "strtol (argv ! 1) = (len, endptr)" "deref endptr = NUL" "0 < len" "len \<le> 1000000"
    unfolding length_accepted_strtol by blast
  show ?thesis
  proof (cases "select_mode argv")
    case None
    then show ?thesis using main_invalid_mode[OF assms s None] True by simp
  next
    case (Some cm)
    then obtain charset mode_name where cm: "select_mode argv = Some (charset, mode_name)"
      by (cases cm) auto
    from main_generate[OF assms s cm, of w] consider
        (blocked) "main w argv = Blocked"
          "generate_random_string w (nat len) charset proc0 = Blocked"
      | (failed) p1 where "generate_random_string w (nat len) charset proc0 = Ret (None, p1)"
          "main w argv = Ret (1, p1)" "stdout p1 = []"
      | (ok) result p1 s e where
          "generate_random_string w (nat len) charset proc0 = Ret (Some result, p1)"
          "block_str result = Some s" "length s = nat len" "set s \<subseteq> set charset"
          "main w argv
            = Ret (0, call Free (entropy_information charset mode_name len e (print (s @ nl) p1)))"
          "stdout p1 = []"
      by blast
    then show ?thesis
    proof cases
      case blocked
      then show ?thesis using True cm s(1) by simp
    next
      case failed
      then show ?thesis using True cm s(1) by simp
    next
      case ok
      have "stdout (call Free (entropy_information charset mode_name len e (print (s @ nl) p1)))
          = s @ nl"
        using ok(6) by simp
      moreover have "int (length s) = fst (strtol (argv ! 1))"
        using ok(3) s(1,3) by simp
      ultimately show ?thesis using True cm s(1) ok(1,2,4,5) by auto
    qed
  qed
qed

lemma main_usage: "main w [program_name] = Ret (1, print_usage program_name proc0)"
  by (simp add: main_def)

lemma stdout_print_usage:
  "stdout (print_usage program_name proc0) \<noteq> []"
  by (simp add: print_usage_def)

text \<open>
  Claim C5, as amended. For every invocation that has a length argument and runs to the end:
  either the exit status is 0 and the primary output is a complete string of the requested
  length followed by a newline, or the exit status is 1 and nothing is written to the primary
  output; no such invocation has undefined behaviour. In particular, when
  \<^verbatim>\<open>generate_random_string\<close> returns \<^verbatim>\<open>NULL\<close> the exit status is 1 with no primary output,
  and it returns \<^verbatim>\<open>NULL\<close>, with no primary output, whenever an allocation fails or
  \<^verbatim>\<open>get_random_bytes\<close> does not return 0. An invocation with no argument writes the usage
  text to the primary output and has exit status 1.
\<close>

theorem main_string_or_nothing:
  "(2 \<le> length argv \<longrightarrow>
      main w argv \<noteq> Undefined
      \<and> (\<forall>code p. main w argv = Ret (code, p) \<longrightarrow>
            code = 0 \<and> (\<exists>s. stdout p = s @ nl \<and> int (length s) = fst (strtol (argv ! 1)))
            \<or> code = 1 \<and> stdout p = [])
      \<and> (\<forall>charset mode_name p1.
            length_accepted (argv ! 1) \<and> select_mode argv = Some (charset, mode_name)
            \<and> generate_random_string w (nat (fst (strtol (argv ! 1)))) charset proc0
                = Ret (None, p1)
            \<longrightarrow> main w argv = Ret (1, p1) \<and> stdout p1 = []))
   \<and> (\<not> (malloc_result w \<and> malloc_random_bytes w) \<longrightarrow>
        (\<exists>p'. generate_random_string w len C p = Ret (None, p') \<and> stdout p' = stdout p))
   \<and> (malloc_result w \<and> malloc_random_bytes w
        \<and> get_random_bytes w (replicate len None) len
             (call (Malloc len) (call (Malloc ((len + 1) mod (SIZE_MAX + 1))) p))
            = Ret (st, rb, p3)
        \<and> st \<noteq> 0 \<longrightarrow>
        (\<exists>p'. generate_random_string w len C p = Ret (None, p') \<and> stdout p' = stdout p))
   \<and> main w [program_name] = Ret (1, print_usage program_name proc0)"
proof (intro conjI impI allI)
  assume a: "2 \<le> length argv"
  note o = main_outcome[OF a, of w]
  show "main w argv \<noteq> Undefined" using o by auto
  show "code = 0 \<and> (\<exists>s. stdout p = s @ nl \<and> int (length s) = fst (strtol (argv ! 1)))
            \<or> code = 1 \<and> stdout p = []" if "main w argv = Ret (code, p)" for code p
    using o that by auto
  show "main w argv = Ret (1, p1)" "stdout p1 = []"
    if "length_accepted (argv ! 1) \<and> select_mode argv = Some (charset, mode_name)
            \<and> generate_random_string w (nat (fst (strtol (argv ! 1)))) charset proc0
                = Ret (None, p1)" for charset mode_name p1
    using o that by auto
next
  assume "\<not> (malloc_result w \<and> malloc_random_bytes w)"
  then show "\<exists>p'. generate_random_string w len C p = Ret (None, p') \<and> stdout p' = stdout p"
    by (rule generate_random_string_no_memory)
next
  assume "malloc_result w \<and> malloc_random_bytes w
        \<and> get_random_bytes w (replicate len None) len
             (call (Malloc len) (call (Malloc ((len + 1) mod (SIZE_MAX + 1))) p))
            = Ret (st, rb, p3)
        \<and> st \<noteq> 0"
  then show "\<exists>p'. generate_random_string w len C p = Ret (None, p') \<and> stdout p' = stdout p"
    using generate_random_string_no_random by blast
next
  show "main w [program_name] = Ret (1, print_usage program_name proc0)"
    by (rule main_usage)
qed

theorem main_string_or_nothing_witness:
  "2 \<le> length [''randstr'', ''3'', ''num'']
   \<and> (\<exists>p. main os_getrandom [''randstr'', ''3'', ''num''] = Ret (0, p) \<and> stdout p = ''015'' @ nl)
   \<and> int (length ''015'') = fst (strtol ([''randstr'', ''3'', ''num''] ! 1))
   \<and> \<not> (malloc_result os_no_memory \<and> malloc_random_bytes os_no_memory)
   \<and> (\<exists>p'. generate_random_string os_no_memory 3 CHARSET_NUM proc0 = Ret (None, p')
          \<and> stdout p' = stdout proc0)
   \<and> (\<exists>p. main os_no_memory [''randstr'', ''3'', ''num''] = Ret (1, p) \<and> stdout p = [])"
proof -
  from main_os_getrandom_3 obtain e where
    m: "main os_getrandom [''randstr'', ''3'', ''num'']
     = Ret (0, call Free (entropy_information CHARSET_NUM ''numeric'' 3 e
          (print (''015'' @ nl)
             (call Free (call (Getrandom 3) (call (Malloc 3) (call (Malloc (3 + 1)) proc0)))))))"
    by blast
  have n: "\<not> (malloc_result os_no_memory \<and> malloc_random_bytes os_no_memory)"
    by (simp add: os_no_memory_def)
  show ?thesis
    using main_string_or_nothing[of "[''randstr'', ''3'', ''num'']" os_getrandom]
      main_string_or_nothing[of "[''randstr'', ''3'', ''num'']" os_no_memory 3 CHARSET_NUM proc0]
      m n main_os_no_memory_3
    by (simp add: strtol_3)
qed

text \<open>The claim as it was stated covers the invocation with no argument: it writes the usage
  text to the primary output, which is no generated string, and has exit status 1.\<close>

theorem main_string_or_nothing_counterexample:
  "main os_getrandom [''randstr''] = Ret (1, print_usage ''randstr'' proc0)
   \<and> stdout (print_usage ''randstr'' proc0) \<noteq> []
   \<and> take 14 (stdout (print_usage ''randstr'' proc0)) = ''Usage: randstr''"
  by (simp add: main_usage stdout_print_usage) (simp add: print_usage_def c_str_def NUL_def)

text \<open>
  Claim C8. With a length argument present, \<^verbatim>\<open>main\<close> refuses with exit status 1, before
  the generator is entered (no \<^verbatim>\<open>malloc\<close>, no request for random bytes) and with nothing on
  the primary output, every length argument that does not pass the test of line 168, among
  them every decimal numeral (with white space and a sign before it or not) whose value is
  outside the interval from 1 to 1000000, and every mode argument other than \<^verbatim>\<open>full\<close>,
  \<^verbatim>\<open>alnum\<close> and \<^verbatim>\<open>num\<close>. The exit
  status is 0 or 1: it is 0 exactly when \<^verbatim>\<open>generate_random_string\<close> has returned a string,
  and 1 when it has returned \<^verbatim>\<open>NULL\<close>, as it does when an allocation fails or when
  \<^verbatim>\<open>getrandom\<close> fails and \<^verbatim>\<open>/dev/urandom\<close> cannot be opened. With no argument at all
  the exit status is 1 as well.
\<close>

theorem main_rejects_invalid_arguments:
  assumes "2 \<le> length argv"
  shows
    "(\<not> length_accepted (argv ! 1) \<longrightarrow> main w argv = Ret (1, eprint invalid_length proc0))
     \<and> (\<forall>ws sg ds.
          c_str (argv ! 1) = ws @ sg @ ds \<and> (\<forall>c\<in>set ws. isspace c)
          \<and> (sg = [] \<or> sg = ''+'' \<or> sg = ''-'') \<and> ds \<noteq> [] \<and> (\<forall>c\<in>set ds. isdigit c)
          \<and> ((if sg = ''-'' then - int (decimal ds) else int (decimal ds)) \<le> 0
              \<or> 1000000 < (if sg = ''-'' then - int (decimal ds) else int (decimal ds)))
          \<longrightarrow> \<not> length_accepted (argv ! 1))
     \<and> (3 \<le> length argv \<and> c_str (argv ! 2) \<noteq> ''full'' \<and> c_str (argv ! 2) \<noteq> ''alnum''
          \<and> c_str (argv ! 2) \<noteq> ''num''
          \<longrightarrow> main w argv = Ret (1, eprint invalid_length proc0)
              \<or> main w argv = Ret (1, eprint invalid_mode proc0))
     \<and> calls (eprint d proc0) = [] \<and> stdout (eprint d proc0) = []
     \<and> (\<forall>code p. main w argv = Ret (code, p) \<longrightarrow> code = 0 \<or> code = 1)
     \<and> ((\<exists>p. main w argv = Ret (0, p)) \<longleftrightarrow>
          (\<exists>charset mode_name result p1.
             length_accepted (argv ! 1) \<and> select_mode argv = Some (charset, mode_name)
             \<and> generate_random_string w (nat (fst (strtol (argv ! 1)))) charset proc0
                 = Ret (Some result, p1)))
     \<and> (\<forall>charset mode_name p1.
          length_accepted (argv ! 1) \<and> select_mode argv = Some (charset, mode_name)
          \<and> generate_random_string w (nat (fst (strtol (argv ! 1)))) charset proc0 = Ret (None, p1)
          \<longrightarrow> main w argv = Ret (1, p1))
     \<and> (length_accepted (argv ! 1) \<and> select_mode argv \<noteq> None
          \<and> \<not> (malloc_result w \<and> malloc_random_bytes w)
          \<longrightarrow> (\<exists>p. main w argv = Ret (1, p)))
     \<and> (length_accepted (argv ! 1) \<and> select_mode argv \<noteq> None
          \<and> malloc_result w \<and> malloc_random_bytes w
          \<and> (\<exists>e. getrandom_ev w = Getrandom_error e) \<and> open_ret w < 0
          \<longrightarrow> (\<exists>p. main w argv = Ret (1, p)))
     \<and> main w [program_name] = Ret (1, print_usage program_name proc0)"
proof -
  note o = main_outcome[OF assms, of w]
  have 1: "\<not> length_accepted (argv ! 1) \<longrightarrow> main w argv = Ret (1, eprint invalid_length proc0)"
    using main_not_accepted[OF assms] by simp
  have 2: "\<forall>ws sg ds.
          c_str (argv ! 1) = ws @ sg @ ds \<and> (\<forall>c\<in>set ws. isspace c)
          \<and> (sg = [] \<or> sg = ''+'' \<or> sg = ''-'') \<and> ds \<noteq> [] \<and> (\<forall>c\<in>set ds. isdigit c)
          \<and> ((if sg = ''-'' then - int (decimal ds) else int (decimal ds)) \<le> 0
              \<or> 1000000 < (if sg = ''-'' then - int (decimal ds) else int (decimal ds)))
          \<longrightarrow> \<not> length_accepted (argv ! 1)"
  proof (intro allI impI)
    fix ws sg ds
    assume h: "c_str (argv ! 1) = ws @ sg @ ds \<and> (\<forall>c\<in>set ws. isspace c)
          \<and> (sg = [] \<or> sg = ''+'' \<or> sg = ''-'') \<and> ds \<noteq> [] \<and> (\<forall>c\<in>set ds. isdigit c)
          \<and> ((if sg = ''-'' then - int (decimal ds) else int (decimal ds)) \<le> 0
              \<or> 1000000 < (if sg = ''-'' then - int (decimal ds) else int (decimal ds)))"
    then have "\<exists>len endptr. strtol (argv ! 1) = (len, endptr) \<and> (len \<le> 0 \<or> 1000000 < len)"
      by (intro length_rejected[of "argv ! 1" ws sg ds]) auto
    then show "\<not> length_accepted (argv ! 1)"
      by (auto simp: length_accepted_def)
  qed
  have 3: "3 \<le> length argv \<and> c_str (argv ! 2) \<noteq> ''full'' \<and> c_str (argv ! 2) \<noteq> ''alnum''
          \<and> c_str (argv ! 2) \<noteq> ''num''
          \<longrightarrow> main w argv = Ret (1, eprint invalid_length proc0)
              \<or> main w argv = Ret (1, eprint invalid_mode proc0)"
    using o by (auto simp: select_mode_None_iff[symmetric])
  have 4: "calls (eprint d proc0) = [] \<and> stdout (eprint d proc0) = []" by simp
  have 5: "\<forall>code p. main w argv = Ret (code, p) \<longrightarrow> code = 0 \<or> code = 1"
    using o by auto
  have 6: "(\<exists>p. main w argv = Ret (0, p)) \<longleftrightarrow>
          (\<exists>charset mode_name result p1.
             length_accepted (argv ! 1) \<and> select_mode argv = Some (charset, mode_name)
             \<and> generate_random_string w (nat (fst (strtol (argv ! 1)))) charset proc0
                 = Ret (Some result, p1))"
    using o by auto
  have 7: "\<forall>charset mode_name p1.
          length_accepted (argv ! 1) \<and> select_mode argv = Some (charset, mode_name)
          \<and> generate_random_string w (nat (fst (strtol (argv ! 1)))) charset proc0 = Ret (None, p1)
          \<longrightarrow> main w argv = Ret (1, p1)"
    using o by auto
  have 8: "length_accepted (argv ! 1) \<and> select_mode argv \<noteq> None
          \<and> \<not> (malloc_result w \<and> malloc_random_bytes w)
          \<longrightarrow> (\<exists>p. main w argv = Ret (1, p))"
  proof
    assume h: "length_accepted (argv ! 1) \<and> select_mode argv \<noteq> None
          \<and> \<not> (malloc_result w \<and> malloc_random_bytes w)"
    then obtain charset mode_name where cm: "select_mode argv = Some (charset, mode_name)"
      by auto
    from h obtain p1 where
      "generate_random_string w (nat (fst (strtol (argv ! 1)))) charset proc0 = Ret (None, p1)"
      using generate_random_string_no_memory by blast
    with 7 h cm show "\<exists>p. main w argv = Ret (1, p)" by blast
  qed
  have 9: "length_accepted (argv ! 1) \<and> select_mode argv \<noteq> None
          \<and> malloc_result w \<and> malloc_random_bytes w
          \<and> (\<exists>e. getrandom_ev w = Getrandom_error e) \<and> open_ret w < 0
          \<longrightarrow> (\<exists>p. main w argv = Ret (1, p))"
  proof
    assume h: "length_accepted (argv ! 1) \<and> select_mode argv \<noteq> None
          \<and> malloc_result w \<and> malloc_random_bytes w
          \<and> (\<exists>e. getrandom_ev w = Getrandom_error e) \<and> open_ret w < 0"
    then obtain charset mode_name where cm: "select_mode argv = Some (charset, mode_name)"
      by auto
    from h obtain e where e: "getrandom_ev w = Getrandom_error e" by blast
    define n where "n = nat (fst (strtol (argv ! 1)))"
    have "n < 2 ^ 63"
      using h by (cases "strtol (argv ! 1)") (auto simp: length_accepted_def n_def)
    from get_random_bytes_fallback[OF e this] h
    have "\<exists>rb p3. get_random_bytes w (replicate n None) n
        (call (Malloc n) (call (Malloc ((n + 1) mod (SIZE_MAX + 1))) proc0)) = Ret (- 1, rb, p3)"
      by simp
    then obtain p1 where "generate_random_string w n charset proc0 = Ret (None, p1)"
      using generate_random_string_no_random[of w n proc0 "- 1" _ _ charset] h by auto
    with 7 h cm show "\<exists>p. main w argv = Ret (1, p)" unfolding n_def by blast
  qed
  have 10: "main w [program_name] = Ret (1, print_usage program_name proc0)"
    by (rule main_usage)
  from 1 2 3 4 5 6 7 8 9 10 show ?thesis by blast
qed

lemma length_accepted_3: "length_accepted ''3''"
  by (simp add: length_accepted_def strtol_3 deref_def)

lemma not_length_accepted_1000001: "\<not> length_accepted ''1000001''"
  by (simp add: length_accepted_def strtol_def isspace_def isdigit_def decimal_def
        LONG_MAX_def LONG_MIN_def deref_def)

lemma not_length_accepted_0: "\<not> length_accepted ''0''"
  by (simp add: length_accepted_def strtol_def isspace_def isdigit_def decimal_def
        LONG_MAX_def LONG_MIN_def deref_def)

lemma not_length_accepted_trailing: "\<not> length_accepted ''42 ''"
  by (simp add: length_accepted_def strtol_def isspace_def isdigit_def decimal_def
        LONG_MAX_def LONG_MIN_def deref_def NUL_def)

theorem main_rejects_invalid_arguments_witness:
  "2 \<le> length [''randstr'', ''1000001'']
   \<and> \<not> length_accepted ''1000001''
   \<and> main os_getrandom [''randstr'', ''1000001''] = Ret (1, eprint invalid_length proc0)
   \<and> main os_getrandom [''randstr'', ''0''] = Ret (1, eprint invalid_length proc0)
   \<and> main os_getrandom [''randstr'', ''3'', ''hex''] = Ret (1, eprint invalid_mode proc0)
   \<and> calls (eprint invalid_length proc0) = [] \<and> stdout (eprint invalid_length proc0) = []
   \<and> (\<exists>p. main os_getrandom [''randstr'', ''3'', ''num''] = Ret (0, p))
   \<and> (\<exists>p. main os_no_memory [''randstr'', ''3'', ''num''] = Ret (1, p))
   \<and> (\<exists>p. main os_no_random [''randstr'', ''3'', ''num''] = Ret (1, p))"
proof -
  have m: "select_mode [''randstr'', ''3'', ''hex''] = None"
    by (simp add: select_mode_None_iff c_str_literal NUL_def)
  have hex: "main os_getrandom [''randstr'', ''3'', ''hex''] = Ret (1, eprint invalid_mode proc0)"
    using main_invalid_mode[of "[''randstr'', ''3'', ''hex'']" 3 "[]" os_getrandom] m
    by (simp add: strtol_3 deref_def)
  have r: "malloc_result os_no_random" "malloc_random_bytes os_no_random"
    "getrandom_ev os_no_random = Getrandom_error 38" "open_ret os_no_random < 0"
    "\<not> (malloc_result os_no_memory \<and> malloc_random_bytes os_no_memory)"
    by (simp_all add: os_no_random_def os_no_memory_def)
  have a1: "main os_getrandom [''randstr'', ''1000001''] = Ret (1, eprint invalid_length proc0)"
    using main_rejects_invalid_arguments[of "[''randstr'', ''1000001'']" os_getrandom invalid_length,
        THEN conjunct1] not_length_accepted_1000001
    by simp
  have a0: "main os_getrandom [''randstr'', ''0''] = Ret (1, eprint invalid_length proc0)"
    using main_rejects_invalid_arguments[of "[''randstr'', ''0'']" os_getrandom invalid_length,
        THEN conjunct1] not_length_accepted_0
    by simp
  have nr: "\<exists>p. main os_no_random [''randstr'', ''3'', ''num''] = Ret (1, p)"
    using main_rejects_invalid_arguments[of "[''randstr'', ''3'', ''num'']" os_no_random invalid_length,
        THEN conjunct2, THEN conjunct2, THEN conjunct2, THEN conjunct2, THEN conjunct2,
        THEN conjunct2, THEN conjunct2, THEN conjunct2, THEN conjunct2, THEN conjunct1]
      length_accepted_3 r(1,2,3,4)
    by (simp add: select_mode_num)
  have nm: "\<exists>p. main os_no_memory [''randstr'', ''3'', ''num''] = Ret (1, p)"
    using main_os_no_memory_3 by simp
  have ok: "\<exists>p. main os_getrandom [''randstr'', ''3'', ''num''] = Ret (0, p)"
    using main_os_getrandom_3 by blast
  show ?thesis
    using a1 a0 hex nr nm ok not_length_accepted_1000001 by simp
qed

text \<open>
  Claim C10. The length argument is read with \<^verbatim>\<open>strtol\<close>. The length arguments that are
  not refused as an invalid length are exactly the strings that consist of white space (or
  none), then a \<^verbatim>\<open>+\<close> sign (or none), then decimal digits whose value lies in the interval
  from 1 to 1000000, with nothing behind the digits; so \<^verbatim>\<open>+42\<close> and \<^verbatim>\<open> 42\<close> are not refused.
\<close>

theorem main_accepts_length_iff:
  assumes "2 \<le> length argv"
  shows "main w argv \<noteq> Ret (1, eprint invalid_length proc0) \<longleftrightarrow>
     (\<exists>ws sg ds. c_str (argv ! 1) = ws @ sg @ ds \<and> (\<forall>c\<in>set ws. isspace c)
        \<and> (sg = [] \<or> sg = ''+'') \<and> ds \<noteq> [] \<and> (\<forall>c\<in>set ds. isdigit c)
        \<and> 0 < decimal ds \<and> decimal ds \<le> 1000000)"
proof -
  have "main w argv \<noteq> Ret (1, eprint invalid_length proc0) \<longleftrightarrow> length_accepted (argv ! 1)"
  proof
    assume "main w argv \<noteq> Ret (1, eprint invalid_length proc0)"
    then show "length_accepted (argv ! 1)"
      using main_not_accepted[OF assms] by blast
  next
    assume a: "length_accepted (argv ! 1)"
    show "main w argv \<noteq> Ret (1, eprint invalid_length proc0)"
    proof
      assume e: "main w argv = Ret (1, eprint invalid_length proc0)"
      from main_outcome[OF assms, of w] a e consider
          "eprint invalid_mode proc0 = eprint invalid_length proc0"
        | charset p1 where
            "generate_random_string w (nat (fst (strtol (argv ! 1)))) charset proc0 = Ret (None, p1)"
            "p1 = eprint invalid_length proc0"
        by auto
      then show False
      proof cases
        case 1
        then show False by (simp add: eprint_proc0_inject invalid_messages_differ)
      next
        case 2
        from generate_random_string_calls[OF 2(1)] 2(2) show False by simp
      qed
    qed
  qed
  then show ?thesis
    unfolding length_accepted_strtol length_accepted_iff .
qed

theorem main_accepts_length_iff_witness:
  "2 \<le> length [''randstr'', ''+42'']
   \<and> main os_getrandom [''randstr'', ''+42''] \<noteq> Ret (1, eprint invalid_length proc0)
   \<and> main os_getrandom [''randstr'', '' 42''] \<noteq> Ret (1, eprint invalid_length proc0)
   \<and> main os_getrandom [''randstr'', ''42 ''] = Ret (1, eprint invalid_length proc0)"
proof -
  have p: "\<exists>ws sg ds. c_str ([''randstr'', ''+42''] ! 1) = ws @ sg @ ds \<and> (\<forall>c\<in>set ws. isspace c)
        \<and> (sg = [] \<or> sg = ''+'') \<and> ds \<noteq> [] \<and> (\<forall>c\<in>set ds. isdigit c)
        \<and> 0 < decimal ds \<and> decimal ds \<le> 1000000"
    by (rule exI[of _ "[]"], rule exI[of _ "''+''"], rule exI[of _ "''42''"])
       (simp add: c_str_literal NUL_def isdigit_def decimal_def)
  have s: "\<exists>ws sg ds. c_str ([''randstr'', '' 42''] ! 1) = ws @ sg @ ds \<and> (\<forall>c\<in>set ws. isspace c)
        \<and> (sg = [] \<or> sg = ''+'') \<and> ds \<noteq> [] \<and> (\<forall>c\<in>set ds. isdigit c)
        \<and> 0 < decimal ds \<and> decimal ds \<le> 1000000"
    by (rule exI[of _ "'' ''"], rule exI[of _ "[]"], rule exI[of _ "''42''"])
       (simp add: c_str_literal NUL_def isdigit_def isspace_def decimal_def)
  have t: "main os_getrandom [''randstr'', ''42 ''] = Ret (1, eprint invalid_length proc0)"
    using main_not_accepted[of "[''randstr'', ''42 '']" os_getrandom] not_length_accepted_trailing
    by simp
  show ?thesis
    using main_accepts_length_iff[of "[''randstr'', ''+42'']" os_getrandom, THEN iffD2, OF _ p]
      main_accepts_length_iff[of "[''randstr'', '' 42'']" os_getrandom, THEN iffD2, OF _ s] t
    by simp
qed

end
